theory Spec2Isabelle
  imports Complex_Main
begin

section \<open>The C++ types double and float\<close>

text \<open>
  A value of type \<^verbatim>\<open>double\<close> or \<^verbatim>\<open>float\<close> is a finite number, one of the two
  infinities, or NaN. A finite number is held as the real number it stands for; the sign
  of zero is not kept. An arithmetic operation computes the exact result of its finite
  operands and rounds it to the format: the rounding is a function from the reals to the
  values of the format, and it is where a result overflows to an infinity or underflows
  to zero. On the special values the operations follow IEEE 754: a division by zero gives
  an infinity or NaN and raises nothing, and every comparison with NaN is false.
\<close>

datatype double = Fin real | PInf | MInf | NaN

type_synonym rounding = "real \<Rightarrow> double"

fun is_finite :: "double \<Rightarrow> bool" where
  "is_finite (Fin x) = True"
| "is_finite d = False"

fun is_nan :: "double \<Rightarrow> bool" where
  "is_nan NaN = True"
| "is_nan d = False"

fun is_zero :: "double \<Rightarrow> bool" where
  "is_zero (Fin x) = (x = 0)"
| "is_zero d = False"

fun negative :: "double \<Rightarrow> bool" where
  "negative (Fin x) = (x < 0)"
| "negative MInf = True"
| "negative d = False"

definition signed_inf :: "bool \<Rightarrow> double" where
  "signed_inf neg = (if neg then MInf else PInf)"

text \<open>Negation and the comparisons are exact.\<close>

instantiation double :: "{uminus, ord}"
begin

fun uminus_double :: "double \<Rightarrow> double" where
  "uminus_double (Fin x) = Fin (- x)"
| "uminus_double PInf = MInf"
| "uminus_double MInf = PInf"
| "uminus_double NaN = NaN"

fun less_double :: "double \<Rightarrow> double \<Rightarrow> bool" where
  "less_double (Fin x) (Fin y) = (x < y)"
| "less_double NaN d = False"
| "less_double d NaN = False"
| "less_double d MInf = False"
| "less_double PInf d = False"
| "less_double c d = True"

fun less_eq_double :: "double \<Rightarrow> double \<Rightarrow> bool" where
  "less_eq_double (Fin x) (Fin y) = (x \<le> y)"
| "less_eq_double NaN d = False"
| "less_eq_double d NaN = False"
| "less_eq_double MInf d = True"
| "less_eq_double d PInf = True"
| "less_eq_double c d = False"

instance ..

end

text \<open>The four operations, rounded by \<open>r\<close>.\<close>

fun add_r :: "rounding \<Rightarrow> double \<Rightarrow> double \<Rightarrow> double" where
  "add_r r (Fin x) (Fin y) = r (x + y)"
| "add_r r NaN d = NaN"
| "add_r r d NaN = NaN"
| "add_r r PInf MInf = NaN"
| "add_r r MInf PInf = NaN"
| "add_r r PInf d = PInf"
| "add_r r d PInf = PInf"
| "add_r r MInf d = MInf"
| "add_r r d MInf = MInf"

definition sub_r :: "rounding \<Rightarrow> double \<Rightarrow> double \<Rightarrow> double" where
  "sub_r r c d = add_r r c (- d)"

fun mul_r :: "rounding \<Rightarrow> double \<Rightarrow> double \<Rightarrow> double" where
  "mul_r r (Fin x) (Fin y) = r (x * y)"
| "mul_r r c d =
     (if is_nan c \<or> is_nan d \<or> is_zero c \<or> is_zero d then NaN
      else signed_inf (negative c \<noteq> negative d))"

text \<open>
  A finite number divided by zero is an infinity with the sign of the dividend (the zero
  is taken as positive), and zero divided by zero is NaN.
\<close>

fun div_r :: "rounding \<Rightarrow> double \<Rightarrow> double \<Rightarrow> double" where
  "div_r r (Fin x) (Fin y) =
     (if y \<noteq> 0 then r (x / y) else if x = 0 then NaN else signed_inf (x < 0))"
| "div_r r NaN d = NaN"
| "div_r r d NaN = NaN"
| "div_r r (Fin x) d = Fin 0"
| "div_r r c (Fin y) = signed_inf (negative c \<noteq> (y < 0))"
| "div_r r c d = NaN"

text \<open>A conversion to a format rounds a finite number and keeps a special value.\<close>

fun convert :: "rounding \<Rightarrow> double \<Rightarrow> double" where
  "convert r (Fin x) = r x"
| "convert r d = d"

text \<open>The real number a finite value stands for (and 0 for the special values).\<close>

fun real_of :: "double \<Rightarrow> real" where
  "real_of (Fin x) = x"
| "real_of d = 0"

section \<open>The arithmetic of the machine\<close>

text \<open>
  What \<^verbatim>\<open>main.cpp\<close> takes from its platform: the rounding of \<^verbatim>\<open>double\<close> and of
  \<^verbatim>\<open>float\<close>, the functions \<^verbatim>\<open>exp\<close>, \<^verbatim>\<open>sin\<close> and \<^verbatim>\<open>cos\<close> of the C library on
  finite arguments, and the constant \<^verbatim>\<open>M_PI\<close>.
\<close>

record fpu =
  rnd :: rounding
  rndf :: rounding
  lexp :: "real \<Rightarrow> double"
  lsin :: "real \<Rightarrow> double"
  lcos :: "real \<Rightarrow> double"
  m_pi :: double

definition fadd :: "fpu \<Rightarrow> double \<Rightarrow> double \<Rightarrow> double" where
  "fadd fp = add_r (rnd fp)"

definition fsub :: "fpu \<Rightarrow> double \<Rightarrow> double \<Rightarrow> double" where
  "fsub fp = sub_r (rnd fp)"

definition fmul :: "fpu \<Rightarrow> double \<Rightarrow> double \<Rightarrow> double" where
  "fmul fp = mul_r (rnd fp)"

definition fdiv :: "fpu \<Rightarrow> double \<Rightarrow> double \<Rightarrow> double" where
  "fdiv fp = div_r (rnd fp)"

text \<open>A decimal literal of the source is the double nearest to it.\<close>

definition lit :: "fpu \<Rightarrow> real \<Rightarrow> double" where
  "lit fp q = rnd fp q"

fun exp_d :: "fpu \<Rightarrow> double \<Rightarrow> double" where
  "exp_d fp (Fin x) = lexp fp x"
| "exp_d fp PInf = PInf"
| "exp_d fp MInf = Fin 0"
| "exp_d fp NaN = NaN"

fun sin_d :: "fpu \<Rightarrow> double \<Rightarrow> double" where
  "sin_d fp (Fin x) = lsin fp x"
| "sin_d fp d = NaN"

fun cos_d :: "fpu \<Rightarrow> double \<Rightarrow> double" where
  "cos_d fp (Fin x) = lcos fp x"
| "cos_d fp d = NaN"

subsection \<open>Exact arithmetic\<close>

text \<open>
  The machine that never rounds: every operation returns the exact real result. It is the
  reading of the program over the real numbers.
\<close>

definition exact :: fpu where
  "exact = \<lparr>rnd = Fin, rndf = Fin, lexp = (\<lambda>x. Fin (exp x)), lsin = (\<lambda>x. Fin (sin x)),
     lcos = (\<lambda>x. Fin (cos x)), m_pi = Fin pi\<rparr>"

subsection \<open>IEEE 754 arithmetic\<close>

text \<open>
  Rounding to nearest, ties to even, in a binary format of precision \<open>p\<close> with exponents
  from \<open>emin\<close> to \<open>emax\<close>: the result is the multiple of the unit in the last place of the
  binade of \<open>x\<close> that is nearest to \<open>x\<close>, and an infinity when that is beyond the largest
  finite number. Below \<open>2 ^ emin\<close> the unit is the subnormal one. Here \<open>p2 k\<close> is the
  power \<open>2 ^ k\<close> for an integer \<open>k\<close> of either sign.
\<close>

definition round_even :: "real \<Rightarrow> int" where
  "round_even q =
     (let n = \<lfloor>q\<rfloor>; d = q - of_int n
      in if d < 1 / 2 then n else if 1 / 2 < d then n + 1 else if even n then n else n + 1)"

definition p2 :: "int \<Rightarrow> real" where
  "p2 k = 2 powr of_int k"

definition binade :: "int \<Rightarrow> real \<Rightarrow> int" where
  "binade emin x = max \<lfloor>log 2 \<bar>x\<bar>\<rfloor> emin"

definition ulp :: "nat \<Rightarrow> int \<Rightarrow> real \<Rightarrow> real" where
  "ulp p emin x = p2 (binade emin x - int p + 1)"

definition nearest :: "nat \<Rightarrow> int \<Rightarrow> real \<Rightarrow> real" where
  "nearest p emin x = of_int (round_even (x / ulp p emin x)) * ulp p emin x"

definition round_to :: "nat \<Rightarrow> int \<Rightarrow> int \<Rightarrow> rounding" where
  "round_to p emin emax x =
     (if x = 0 then Fin 0
      else if p2 (emax + 1) \<le> \<bar>nearest p emin x\<bar> then signed_inf (x < 0)
      else Fin (nearest p emin x))"

definition binary64 :: rounding where
  "binary64 = round_to 53 (- 1022) 1023"

definition binary32 :: rounding where
  "binary32 = round_to 24 (- 126) 127"

text \<open>
  The machine of IEEE 754: \<^verbatim>\<open>double\<close> is binary64 and \<^verbatim>\<open>float\<close> is binary32, the
  library functions are taken as correctly rounded, and \<^verbatim>\<open>M_PI\<close> is the double nearest
  to \<open>\<pi>\<close>.
\<close>

definition ieee :: fpu where
  "ieee = \<lparr>rnd = binary64, rndf = binary32, lexp = (\<lambda>x. binary64 (exp x)),
     lsin = (\<lambda>x. binary64 (sin x)), lcos = (\<lambda>x. binary64 (cos x)),
     m_pi = Fin (884279719003555 / 2 ^ 48)\<rparr>"

section \<open>The response model\<close>

definition power2_d :: "fpu \<Rightarrow> double \<Rightarrow> double" where
  "power2_d fp x = fmul fp x x"

definition power3_d :: "fpu \<Rightarrow> double \<Rightarrow> double" where
  "power3_d fp x = fmul fp (fmul fp x x) x"

text \<open>
  \<^verbatim>\<open>(power3(a)*T*cos(a*t) - power2(a)*sin(a*t) + a*exp(-t/T)/T) / (power2(a*T) + 1)\<close>
\<close>

definition ddy :: "fpu \<Rightarrow> double \<Rightarrow> double \<Rightarrow> double \<Rightarrow> double" where
  "ddy fp t a T =
     fdiv fp
       (fadd fp
         (fsub fp
           (fmul fp (fmul fp (power3_d fp a) T) (cos_d fp (fmul fp a t)))
           (fmul fp (power2_d fp a) (sin_d fp (fmul fp a t))))
         (fdiv fp (fmul fp a (exp_d fp (fdiv fp (- t) T))) T))
       (fadd fp (power2_d fp (fmul fp a T)) (Fin 1))"

text \<open>
  \<^verbatim>\<open>(power2(a)*T*sin(a*t) + a*cos(a*t) - a*exp(-t/T)) / (power2(a*T) + 1)\<close>
\<close>

definition dy :: "fpu \<Rightarrow> double \<Rightarrow> double \<Rightarrow> double \<Rightarrow> double" where
  "dy fp t a T =
     fdiv fp
       (fsub fp
         (fadd fp
           (fmul fp (fmul fp (power2_d fp a) T) (sin_d fp (fmul fp a t)))
           (fmul fp a (cos_d fp (fmul fp a t))))
         (fmul fp a (exp_d fp (fdiv fp (- t) T))))
       (fadd fp (power2_d fp (fmul fp a T)) (Fin 1))"

text \<open>
  \<^verbatim>\<open>(-a*T*cos(a*t) + a*T*exp(-t/T) + sin(a*t)) / (power2(a*T) + 1)\<close>
\<close>

definition y :: "fpu \<Rightarrow> double \<Rightarrow> double \<Rightarrow> double \<Rightarrow> double" where
  "y fp t a T =
     fdiv fp
       (fadd fp
         (fadd fp
           (fmul fp (fmul fp (- a) T) (cos_d fp (fmul fp a t)))
           (fmul fp (fmul fp a T) (exp_d fp (fdiv fp (- t) T))))
         (sin_d fp (fmul fp a t)))
       (fadd fp (power2_d fp (fmul fp a T)) (Fin 1))"

section \<open>The peak finder\<close>

text \<open>
  One pass of the loop of \<^verbatim>\<open>newtonsMethod\<close> is the root of the tangent line
  (\<^verbatim>\<open>A = ddy(t, a, T); B = dy(t, a, T) - A*t; t = -B/A\<close>) followed by the two tests
  \<^verbatim>\<open>if(t>t_max) t=t_max; if(t<0) t=0.45*t_max;\<close>.
\<close>

definition newton_root :: "fpu \<Rightarrow> double \<Rightarrow> double \<Rightarrow> double \<Rightarrow> double" where
  "newton_root fp t a T =
     (let A = ddy fp t a T; B = fsub fp (dy fp t a T) (fmul fp A t) in fdiv fp (- B) A)"

definition clamp_t :: "fpu \<Rightarrow> double \<Rightarrow> double \<Rightarrow> double" where
  "clamp_t fp t t_max =
     (let t1 = (if t > t_max then t_max else t)
      in if t1 < Fin 0 then fmul fp (lit fp 0.45) t_max else t1)"

function newton_loop ::
  "fpu \<Rightarrow> nat \<Rightarrow> double \<Rightarrow> double \<Rightarrow> double \<Rightarrow> double \<Rightarrow> double" where
  "newton_loop fp i t a T t_max =
     (if i < 6 then newton_loop fp (i + 1) (clamp_t fp (newton_root fp t a T) t_max) a T t_max
      else t)"
  by pat_completeness auto
termination
  by (relation "measure (\<lambda>(fp, i, t, a, T, t_max). 6 - i)") auto

definition newtonsMethod :: "fpu \<Rightarrow> double \<Rightarrow> double \<Rightarrow> double" where
  "newtonsMethod fp a T =
     (let t_max = fdiv fp (m_pi fp) a; t = fmul fp t_max (lit fp 0.75)
      in newton_loop fp 0 t a T t_max)"

section \<open>The load factor\<close>

definition joggerLoadFactor :: "fpu \<Rightarrow> double \<Rightarrow> double" where
  "joggerLoadFactor fp f =
     (if f \<le> lit fp 1.9 \<or> f \<ge> lit fp 3.5 then Fin 0
      else if f < lit fp 2.2 then fmul fp (fsub fp f (lit fp 1.9)) (fsub fp (lit fp 2.2) (lit fp 1.9))
      else if f \<le> lit fp 2.7 then Fin 1
      else fmul fp (- fsub fp f (lit fp 3.5)) (fsub fp (lit fp 3.5) (lit fp 2.7)))"

section \<open>The program\<close>

text \<open>
  The two global flags, set by the command line arguments after the program's name. An
  argument is the C string without its final zero byte, so
  \<^verbatim>\<open>arg[1] == 'p' && arg[2] == 0\<close> says that one character follows the dash.
\<close>

record flags =
  plot :: bool
  overrideVelocity :: bool

definition processArg :: "string \<Rightarrow> flags \<Rightarrow> flags" where
  "processArg arg fl =
     (case arg of
        [] \<Rightarrow> fl
      | c # rest \<Rightarrow>
          if c = CHR ''-'' then
            (if rest = ''p'' then fl\<lparr>plot := True\<rparr>
             else if rest = ''v'' then fl\<lparr>overrideVelocity := True\<rparr>
             else fl)
          else fl)"

text \<open>
  The numbers \<^verbatim>\<open>main\<close> reads from the console, in the order of its prompts: the
  frequency, the length of the span, the velocity (asked for under \<^verbatim>\<open>-v\<close> only), the
  damping and the generalized mass. A read that fails is not modelled. The mass is read
  into a \<^verbatim>\<open>float\<close>, and \<^verbatim>\<open>y_max_ratio\<close> is a \<^verbatim>\<open>float\<close>: both are converted, and the
  products \<^verbatim>\<open>y_max_ratio*1250\<close>, \<^verbatim>\<open>y_max_ratio*100\<close> and \<^verbatim>\<open>2*m\<close> are rounded to
  \<^verbatim>\<open>float\<close>. The numbers printed are the fields of \<open>report\<close>.
\<close>

record console =
  in_f :: double
  in_L :: double
  in_v :: double
  in_z :: double
  in_m :: double

record report =
  jogger_load :: double
  samples :: "(double \<times> double) list"
  t_peak :: double
  walk_time :: double
  percent :: double
  y_max :: double
  acceleration :: double

definition main :: "fpu \<Rightarrow> string list \<Rightarrow> console \<Rightarrow> report" where
  "main fp args inp =
     (let fl = foldl (\<lambda>s arg. processArg arg s) \<lparr>plot = False, overrideVelocity = False\<rparr> args;
          f = in_f inp;
          L = in_L inp;
          v = (if overrideVelocity fl then in_v inp else Fin 3);
          z = in_z inp;
          a = fdiv fp (fmul fp (m_pi fp) v) L;
          T = fdiv fp (Fin 1) (fmul fp (fmul fp (fmul fp (Fin 2) (m_pi fp)) f) z);
          t = newtonsMethod fp a T;
          walkTime = fdiv fp L v;
          y_max_ratio = convert (rndf fp) (y fp t a T);
          m = convert (rndf fp) (in_m inp)
      in \<lparr>jogger_load = fmul fp (joggerLoadFactor fp f) (Fin 1250),
          samples =
            (if plot fl
             then map (\<lambda>i. let t = convert (rndf fp)
                                      (fdiv fp (fmul fp (Fin (real i)) (Fin 20)) (Fin 100))
                            in (t, y fp t a T)) [0..<100]
             else []),
          t_peak = t,
          walk_time = walkTime,
          percent = fdiv fp (fmul fp t (Fin 100)) walkTime,
          y_max = mul_r (rndf fp) y_max_ratio (Fin 100),
          acceleration =
            fdiv fp
              (fmul fp (mul_r (rndf fp) y_max_ratio (Fin 1250)) (joggerLoadFactor fp f))
              (fmul fp (mul_r (rndf fp) (Fin 2) m) z)\<rparr>)"

section \<open>The closed forms of the specification\<close>

text \<open>
  The three formulas as the specification writes them, over the real numbers. They are
  what the functions \<open>y\<close>, \<open>dy\<close> and \<open>ddy\<close> of the program are compared with.
\<close>

definition y_spec :: "real \<Rightarrow> real \<Rightarrow> real \<Rightarrow> real" where
  "y_spec t a T =
     (- a * T * cos (a * t) + a * T * exp (- t / T) + sin (a * t)) / ((a * T)\<^sup>2 + 1)"

definition dy_spec :: "real \<Rightarrow> real \<Rightarrow> real \<Rightarrow> real" where
  "dy_spec t a T =
     (a\<^sup>2 * T * sin (a * t) + a * cos (a * t) - a * exp (- t / T)) / ((a * T)\<^sup>2 + 1)"

definition ddy_spec :: "real \<Rightarrow> real \<Rightarrow> real \<Rightarrow> real" where
  "ddy_spec t a T =
     (a ^ 3 * T * cos (a * t) - a\<^sup>2 * sin (a * t) + (a / T) * exp (- t / T))
       / ((a * T)\<^sup>2 + 1)"

text \<open>
  The acceleration per jogger as the specification gives it,
  \<open>y_max_ratio * 1250 * loadFactor(f) / (2 m z)\<close>, with every operation in \<^verbatim>\<open>double\<close>.
\<close>

definition acceleration_spec ::
  "fpu \<Rightarrow> double \<Rightarrow> double \<Rightarrow> double \<Rightarrow> double \<Rightarrow> double" where
  "acceleration_spec fp y_max_ratio f m z =
     fdiv fp (fmul fp (fmul fp y_max_ratio (Fin 1250)) (joggerLoadFactor fp f))
       (fmul fp (fmul fp (Fin 2) m) z)"

section \<open>What the theorems ask of a machine\<close>

text \<open>
  The properties of a rounding that the theorems below use: it is monotone, it returns
  the multiples of 1/8 up to 4 unchanged, it is symmetric, and it returns its own finite
  results unchanged. Rounding to nearest has all of them.
\<close>

definition sound_rounding :: "rounding \<Rightarrow> bool" where
  "sound_rounding r \<longleftrightarrow>
     (\<forall>x z. x \<le> z \<longrightarrow> r x \<le> r z)
     \<and> (\<forall>k::int. \<bar>k\<bar> \<le> 32 \<longrightarrow> r (of_int k / 8) = Fin (of_int k / 8))
     \<and> (\<forall>x. r (- x) = - r x)
     \<and> (\<forall>x v. r x = Fin v \<longrightarrow> r v = Fin v)"

text \<open>
  And of the library: sine and cosine are finite and between -1 and 1, the exponential
  is never NaN nor negative, and the three are exact at 0; \<^verbatim>\<open>M_PI\<close> is a finite positive
  number.
\<close>

definition sound_fp :: "fpu \<Rightarrow> bool" where
  "sound_fp fp \<longleftrightarrow>
     sound_rounding (rnd fp) \<and> sound_rounding (rndf fp)
     \<and> (\<forall>x. Fin (- 1) \<le> lsin fp x \<and> lsin fp x \<le> Fin 1)
     \<and> (\<forall>x. Fin (- 1) \<le> lcos fp x \<and> lcos fp x \<le> Fin 1)
     \<and> (\<forall>x. Fin 0 \<le> lexp fp x)
     \<and> lsin fp 0 = Fin 0 \<and> lcos fp 0 = Fin 1 \<and> lexp fp 0 = Fin 1
     \<and> (\<exists>p. m_pi fp = Fin p \<and> 0 < p)"

text \<open>
  Two auxiliary predicates: a value of the loop is in the window when it is NaN or lies
  between 0 and \<open>t_max\<close>, and a value is bounded by a power of two when it is finite
  and its magnitude is at most that power.
\<close>

definition in_window :: "double \<Rightarrow> double \<Rightarrow> bool" where
  "in_window t_max t \<longleftrightarrow> is_nan t \<or> (Fin 0 \<le> t \<and> t \<le> t_max)"

definition bounded_by :: "int \<Rightarrow> double \<Rightarrow> bool" where
  "bounded_by k d \<longleftrightarrow> (\<exists>v. d = Fin v \<and> \<bar>v\<bar> \<le> p2 k)"

section \<open>Sound roundings\<close>

lemma sr_mono: "sound_rounding r \<Longrightarrow> x \<le> z \<Longrightarrow> r x \<le> r z"
  by (simp add: sound_rounding_def)

lemma sr_eighth: "sound_rounding r \<Longrightarrow> \<bar>k\<bar> \<le> 32 \<Longrightarrow> r (of_int k / 8) = Fin (of_int k / 8)"
  by (simp add: sound_rounding_def)

lemma sr_neg: "sound_rounding r \<Longrightarrow> r (- x) = - r x"
  by (simp add: sound_rounding_def)

lemma sr_idem: "sound_rounding r \<Longrightarrow> r x = Fin v \<Longrightarrow> r v = Fin v"
  unfolding sound_rounding_def by blast

lemma sr_exact:
  assumes "sound_rounding r"
  shows "r 0 = Fin 0" "r 1 = Fin 1" "r (- 1) = Fin (- 1)" "r (1 / 2) = Fin (1 / 2)"
    "r (15 / 8) = Fin (15 / 8)" "r 2 = Fin 2" "r (17 / 8) = Fin (17 / 8)"
    "r (9 / 4) = Fin (9 / 4)" "r (21 / 8) = Fin (21 / 8)" "r (11 / 4) = Fin (11 / 4)"
    "r (7 / 2) = Fin (7 / 2)" "r (3 / 8) = Fin (3 / 8)" "r (3 / 4) = Fin (3 / 4)"
  using sr_eighth [OF assms, of 0] sr_eighth [OF assms, of 8] sr_eighth [OF assms, of "- 8"]
    sr_eighth [OF assms, of 4] sr_eighth [OF assms, of 15] sr_eighth [OF assms, of 16]
    sr_eighth [OF assms, of 17] sr_eighth [OF assms, of 18] sr_eighth [OF assms, of 21]
    sr_eighth [OF assms, of 22] sr_eighth [OF assms, of 28] sr_eighth [OF assms, of 3]
    sr_eighth [OF assms, of 6]
  by simp_all

lemma le_Fin_cases:
  assumes "Fin lo \<le> d" "d \<le> Fin hi"
  shows "\<exists>v. d = Fin v \<and> lo \<le> v \<and> v \<le> hi"
  using assms by (cases d) simp_all

lemma sr_between:
  assumes "sound_rounding r" "r lo = Fin lo" "r hi = Fin hi" "lo \<le> x" "x \<le> hi"
  shows "\<exists>v. r x = Fin v \<and> lo \<le> v \<and> v \<le> hi"
proof -
  have "Fin lo \<le> r x" "r x \<le> Fin hi"
    using sr_mono [OF assms(1) assms(4)] sr_mono [OF assms(1) assms(5)] assms(2,3) by simp_all
  then show ?thesis by (rule le_Fin_cases)
qed

lemma sr_not_nan: "sound_rounding r \<Longrightarrow> r x \<noteq> NaN"
  using sr_mono [of r x x] by (cases "r x") auto

lemma sr_nonneg: "sound_rounding r \<Longrightarrow> 0 \<le> x \<Longrightarrow> Fin 0 \<le> r x"
  using sr_mono [of r 0 x] sr_exact(1) [of r] by simp

lemma sr_nonpos: "sound_rounding r \<Longrightarrow> x \<le> 0 \<Longrightarrow> r x \<le> Fin 0"
  using sr_mono [of r x 0] sr_exact(1) [of r] by simp

lemma sound_fp_rnd: "sound_fp fp \<Longrightarrow> sound_rounding (rnd fp)"
  by (simp add: sound_fp_def)

section \<open>Rounding to the nearest integer, ties to even\<close>

lemma round_even_of_int [simp]: "round_even (of_int n) = n"
  by (simp add: round_even_def)

lemma round_even_cases:
  "round_even q = \<lfloor>q\<rfloor> \<or> round_even q = \<lfloor>q\<rfloor> + 1"
  by (simp add: round_even_def Let_def)

lemma round_even_ge_floor: "\<lfloor>q\<rfloor> \<le> round_even q"
  using round_even_cases [of q] by auto

lemma round_even_le_ceiling: "round_even q \<le> \<lceil>q\<rceil>"
proof (cases "q = of_int \<lfloor>q\<rfloor>")
  case True
  then have "round_even q = \<lfloor>q\<rfloor>"
    by (metis round_even_of_int)
  then show ?thesis by (simp add: floor_le_ceiling)
next
  case False
  then have "\<lceil>q\<rceil> = \<lfloor>q\<rfloor> + 1"
    by (metis ceiling_altdef)
  then show ?thesis using round_even_cases [of q] by auto
qed

lemma round_even_mono:
  assumes "q1 \<le> q2"
  shows "round_even q1 \<le> round_even q2"
proof (cases "\<lfloor>q1\<rfloor> = \<lfloor>q2\<rfloor>")
  case True
  then have "q1 - of_int \<lfloor>q1\<rfloor> \<le> q2 - of_int \<lfloor>q2\<rfloor>" using assms by simp
  then show ?thesis
    using True by (auto simp: round_even_def Let_def)
next
  case False
  then have "\<lfloor>q1\<rfloor> + 1 \<le> \<lfloor>q2\<rfloor>"
    using floor_mono [OF assms] by linarith
  then show ?thesis
    using round_even_cases [of q1] round_even_ge_floor [of q2] by linarith
qed

lemma round_even_lower: "of_int n \<le> q \<Longrightarrow> n \<le> round_even q"
  using round_even_mono [of "of_int n" q] by simp

lemma round_even_upper: "q \<le> of_int n \<Longrightarrow> round_even q \<le> n"
  using round_even_mono [of q "of_int n"] by simp

lemma round_even_minus: "round_even (- q) = - round_even q"
proof (cases "q = of_int \<lfloor>q\<rfloor>")
  case True
  then obtain n where "q = of_int n" ..
  then have "round_even (- q) = - n" "round_even q = n"
    using round_even_of_int [of "- n"] by simp_all
  then show ?thesis by simp
next
  case False
  then have fl: "\<lfloor>- q\<rfloor> = - \<lfloor>q\<rfloor> - 1"
    by (metis ceiling_altdef ceiling_def diff_minus_eq_add add.inverse_inverse
        minus_add_distrib)
  define n where "n = \<lfloor>q\<rfloor>"
  define d where "d = q - of_int n"
  have d: "0 < d" "d < 1"
    using False unfolding d_def n_def by linarith+
  have e: "- q - of_int (- n - 1) = 1 - d" by (simp add: d_def)
  have "even (- n - 1) \<longleftrightarrow> \<not> even n" by simp
  then show ?thesis
    unfolding round_even_def Let_def fl n_def [symmetric] e d_def [symmetric]
    using d by auto
qed

lemma round_even_half_nonpos: "q < 1 / 2 \<Longrightarrow> round_even q \<le> 0"
proof (cases "q \<le> 0")
  case True
  then show ?thesis using round_even_upper [of q 0] by simp
next
  case False
  assume "q < 1 / 2"
  then have "\<lfloor>q\<rfloor> = 0" using False by (simp add: floor_eq_iff)
  then show ?thesis using \<open>q < 1 / 2\<close> by (simp add: round_even_def Let_def)
qed

lemma round_even_half_zero:
  assumes "\<bar>q\<bar> < 1 / 2"
  shows "round_even q = 0"
proof -
  have "q < 1 / 2" "- q < 1 / 2" using assms by linarith+
  then have "round_even q \<le> 0" "round_even (- q) \<le> 0"
    by (simp_all add: round_even_half_nonpos)
  then show ?thesis by (simp add: round_even_minus)
qed

section \<open>Powers of two\<close>

lemma p2_pos [simp]: "0 < p2 k"
  by (simp add: p2_def)

lemma p2_nonneg [simp]: "0 \<le> p2 k"
  by (simp add: p2_def)

lemma p2_add: "p2 (k + l) = p2 k * p2 l"
  by (simp add: p2_def powr_add)

lemma p2_diff: "p2 (k - l) = p2 k / p2 l"
  by (simp add: p2_def powr_diff)

lemma p2_mono: "k \<le> l \<Longrightarrow> p2 k \<le> p2 l"
  by (simp add: p2_def)

lemma p2_less: "k < l \<Longrightarrow> p2 k < p2 l"
  by (simp add: p2_def)

lemma p2_nat: "0 \<le> k \<Longrightarrow> p2 k = of_int (2 ^ nat k)"
  by (simp add: p2_def powr_real_of_int)

lemma p2_0 [simp]: "p2 0 = 1"
  by (simp add: p2_def)

lemma p2_neg: "k \<le> 0 \<Longrightarrow> p2 k = 1 / 2 ^ nat (- k)"
  by (simp add: p2_def powr_real_of_int inverse_eq_divide)

section \<open>Binades\<close>

lemma floor_log2:
  assumes "x \<noteq> 0"
  shows "p2 \<lfloor>log 2 \<bar>x\<bar>\<rfloor> \<le> \<bar>x\<bar>" "\<bar>x\<bar> < p2 (\<lfloor>log 2 \<bar>x\<bar>\<rfloor> + 1)"
  using floor_log_eq_powr_iff [of "\<bar>x\<bar>" 2 "\<lfloor>log 2 \<bar>x\<bar>\<rfloor>"] assms
  by (simp_all add: p2_def)

lemma floor_log2_eq:
  assumes "p2 k \<le> \<bar>x\<bar>" "\<bar>x\<bar> < p2 (k + 1)"
  shows "\<lfloor>log 2 \<bar>x\<bar>\<rfloor> = k"
proof -
  have "0 < \<bar>x\<bar>" using assms(1) p2_pos [of k] by linarith
  then show ?thesis
    using floor_log_eq_powr_iff [of "\<bar>x\<bar>" 2 k] assms by (simp add: p2_def)
qed

lemma binade_ge: "emin \<le> binade emin x"
  by (simp add: binade_def)

lemma binade_minus [simp]: "binade emin (- x) = binade emin x"
  by (simp add: binade_def)

lemma binade_eq:
  assumes "p2 k \<le> \<bar>x\<bar>" "\<bar>x\<bar> < p2 (k + 1)" "emin \<le> k"
  shows "binade emin x = k"
  using floor_log2_eq [OF assms(1,2)] assms(3) by (simp add: binade_def)

lemma binade_subnormal:
  assumes "x \<noteq> 0" "\<bar>x\<bar> < p2 emin"
  shows "binade emin x = emin"
proof -
  have "\<not> emin < \<lfloor>log 2 \<bar>x\<bar>\<rfloor>"
  proof
    assume "emin < \<lfloor>log 2 \<bar>x\<bar>\<rfloor>"
    then have "p2 emin \<le> p2 \<lfloor>log 2 \<bar>x\<bar>\<rfloor>" by (intro p2_mono) simp
    then show False using floor_log2(1) [OF assms(1)] assms(2) by linarith
  qed
  then show ?thesis by (simp add: binade_def)
qed

lemma binade_normal:
  assumes "p2 emin \<le> \<bar>x\<bar>"
  shows "p2 (binade emin x) \<le> \<bar>x\<bar>" "\<bar>x\<bar> < p2 (binade emin x + 1)"
proof -
  have x: "x \<noteq> 0" using assms p2_pos [of emin] by (cases "x = 0") simp_all
  have "emin \<le> \<lfloor>log 2 \<bar>x\<bar>\<rfloor>"
  proof (rule ccontr)
    assume "\<not> emin \<le> \<lfloor>log 2 \<bar>x\<bar>\<rfloor>"
    then have "p2 (\<lfloor>log 2 \<bar>x\<bar>\<rfloor> + 1) \<le> p2 emin" by (intro p2_mono) simp
    then show False using floor_log2(2) [OF x] assms by linarith
  qed
  then have "binade emin x = \<lfloor>log 2 \<bar>x\<bar>\<rfloor>" by (simp add: binade_def)
  then show "p2 (binade emin x) \<le> \<bar>x\<bar>" "\<bar>x\<bar> < p2 (binade emin x + 1)"
    using floor_log2 [OF x] by simp_all
qed

lemma binade_upper:
  assumes "x \<noteq> 0"
  shows "\<bar>x\<bar> < p2 (binade emin x + 1)"
proof (cases "p2 emin \<le> \<bar>x\<bar>")
  case True
  then show ?thesis by (rule binade_normal)
next
  case False
  then have "binade emin x = emin" using binade_subnormal [OF assms] by simp
  moreover have "p2 emin < p2 (emin + 1)" by (intro p2_less) simp
  ultimately show ?thesis using False by simp
qed

lemma binade_mono:
  assumes "x \<noteq> 0" "\<bar>x\<bar> \<le> \<bar>z\<bar>"
  shows "binade emin x \<le> binade emin z"
proof -
  have "log 2 \<bar>x\<bar> \<le> log 2 \<bar>z\<bar>" using assms by simp
  then have "\<lfloor>log 2 \<bar>x\<bar>\<rfloor> \<le> \<lfloor>log 2 \<bar>z\<bar>\<rfloor>" by (rule floor_mono)
  then show ?thesis by (simp add: binade_def)
qed

section \<open>The nearest multiple of the unit in the last place\<close>

lemma ulp_pos [simp]: "0 < ulp p emin x"
  by (simp add: ulp_def)

lemma ulp_nonneg [simp]: "0 \<le> ulp p emin x"
  by (simp add: ulp_def)

lemma p2_not_le_zero [simp]: "\<not> p2 k \<le> 0"
  using p2_pos [of k] by linarith

lemma ulp_minus [simp]: "ulp p emin (- x) = ulp p emin x"
  by (simp add: ulp_def)

lemma nearest_minus: "nearest p emin (- x) = - nearest p emin x"
  using round_even_minus [of "x / ulp p emin x"] by (simp add: nearest_def)

lemma nearest_zero [simp]: "nearest p emin 0 = 0"
  using round_even_of_int [of 0] by (simp add: nearest_def)

lemma nearest_multiple:
  assumes "x = of_int m * ulp p emin x"
  shows "nearest p emin x = x"
proof -
  have "x / ulp p emin x = of_int m"
    using assms ulp_pos [of p emin x] by (metis less_irrefl nonzero_eq_divide_eq)
  then show ?thesis using assms by (simp add: nearest_def)
qed

lemma nearest_nonneg:
  assumes "0 \<le> x"
  shows "0 \<le> nearest p emin x"
proof -
  have "0 \<le> x / ulp p emin x" using assms by simp
  then have "0 \<le> round_even (x / ulp p emin x)"
    using round_even_lower [of 0] by simp
  then show ?thesis by (simp add: nearest_def)
qed

lemma nearest_lower:
  assumes p: "1 \<le> p" and x: "p2 (binade emin x) \<le> x"
  shows "p2 (binade emin x) \<le> nearest p emin x"
proof -
  define E where "E = binade emin x"
  define U where "U = ulp p emin x"
  have U: "0 < U" "U = p2 (E - int p + 1)" by (simp_all add: U_def E_def ulp_def)
  have s: "p2 E = p2 (int p - 1) * U"
    unfolding U(2) by (simp add: p2_add [symmetric])
  have n: "p2 (int p - 1) = of_int (2 ^ nat (int p - 1))"
    using p by (intro p2_nat) simp
  have "p2 (int p - 1) \<le> x / U"
    using x U(1) unfolding E_def [symmetric] s by (simp add: field_simps)
  then have "2 ^ nat (int p - 1) \<le> round_even (x / U)"
    unfolding n by (rule round_even_lower)
  then have "p2 (int p - 1) \<le> of_int (round_even (x / U))"
    unfolding n by linarith
  then have "p2 (int p - 1) * U \<le> of_int (round_even (x / U)) * U"
    using U(1) by (simp add: mult_right_mono)
  then show ?thesis
    unfolding E_def [symmetric] s nearest_def U_def [symmetric] .
qed

lemma nearest_upper:
  assumes p: "1 \<le> p" and x: "0 < x"
  shows "nearest p emin x \<le> p2 (binade emin x + 1)"
proof -
  define E where "E = binade emin x"
  define U where "U = ulp p emin x"
  have U: "0 < U" "U = p2 (E - int p + 1)" by (simp_all add: U_def E_def ulp_def)
  have s: "p2 (E + 1) = p2 (int p) * U"
    unfolding U(2) p2_add [symmetric] by simp
  have n: "p2 (int p) = of_int (2 ^ nat (int p))"
    by (intro p2_nat) simp
  have "x < p2 (E + 1)"
    using binade_upper [of x emin] x unfolding E_def by simp
  then have "x / U \<le> p2 (int p)"
    using U(1) unfolding s by (simp add: field_simps)
  then have "round_even (x / U) \<le> 2 ^ nat (int p)"
    unfolding n by (rule round_even_upper)
  then have "of_int (round_even (x / U)) \<le> p2 (int p)"
    unfolding n by linarith
  then have "of_int (round_even (x / U)) * U \<le> p2 (int p) * U"
    using U(1) by (simp add: mult_right_mono)
  then show ?thesis
    unfolding E_def [symmetric] s nearest_def U_def [symmetric] .
qed

lemma binade_gt_normal:
  assumes "emin < binade emin x" "x \<noteq> 0"
  shows "p2 (binade emin x) \<le> \<bar>x\<bar>"
proof -
  have "binade emin x = \<lfloor>log 2 \<bar>x\<bar>\<rfloor>"
    using assms(1) by (simp add: binade_def max_def split: if_splits)
  then show ?thesis using floor_log2(1) [OF assms(2)] by simp
qed

lemma nearest_mono_pos:
  assumes p: "1 \<le> p" and x: "0 < x" and xz: "x \<le> z"
  shows "nearest p emin x \<le> nearest p emin z"
proof -
  have le: "binade emin x \<le> binade emin z"
    using x xz by (intro binade_mono) simp_all
  show ?thesis
  proof (cases "binade emin x = binade emin z")
    case True
    then have u: "ulp p emin x = ulp p emin z" by (simp add: ulp_def)
    have "x / ulp p emin z \<le> z / ulp p emin z"
      using xz by (simp add: divide_right_mono)
    then have "round_even (x / ulp p emin z) \<le> round_even (z / ulp p emin z)"
      by (rule round_even_mono)
    then show ?thesis
      unfolding nearest_def u by (simp add: mult_right_mono)
  next
    case False
    then have lt: "binade emin x + 1 \<le> binade emin z" using le by simp
    then have "emin < binade emin z" using binade_ge [of emin x] by linarith
    then have "p2 (binade emin z) \<le> z"
      using binade_gt_normal [of emin z] x xz by simp
    then have "p2 (binade emin z) \<le> nearest p emin z"
      by (rule nearest_lower [OF p])
    moreover have "nearest p emin x \<le> p2 (binade emin x + 1)"
      by (rule nearest_upper [OF p x])
    moreover have "p2 (binade emin x + 1) \<le> p2 (binade emin z)"
      using lt by (rule p2_mono)
    ultimately show ?thesis by linarith
  qed
qed

lemma nearest_mono:
  assumes p: "1 \<le> p" and xz: "x \<le> z"
  shows "nearest p emin x \<le> nearest p emin z"
proof -
  consider "0 < x" | "z < 0" | "x \<le> 0" "0 \<le> z" by linarith
  then show ?thesis
  proof cases
    case 1
    then show ?thesis using nearest_mono_pos [OF p _ xz] by simp
  next
    case 2
    then have "nearest p emin (- z) \<le> nearest p emin (- x)"
      using xz by (intro nearest_mono_pos [OF p]) simp_all
    then show ?thesis by (simp add: nearest_minus)
  next
    case 3
    have "0 \<le> nearest p emin z" using 3 by (intro nearest_nonneg) simp
    moreover have "0 \<le> nearest p emin (- x)" using 3 by (intro nearest_nonneg) simp
    ultimately show ?thesis by (simp add: nearest_minus)
  qed
qed

section \<open>Rounding to a format\<close>

lemma round_to_alt:
  "round_to p emin emax x =
     (if p2 (emax + 1) \<le> \<bar>nearest p emin x\<bar> then signed_inf (x < 0) else Fin (nearest p emin x))"
proof (cases "x = 0")
  case True
  then show ?thesis using p2_pos [of "emax + 1"] by (simp add: round_to_def)
qed (simp add: round_to_def)

lemma nearest_sign:
  "0 \<le> x \<Longrightarrow> 0 \<le> nearest p emin x" "x \<le> 0 \<Longrightarrow> nearest p emin x \<le> 0"
  using nearest_nonneg [of x p emin] nearest_nonneg [of "- x" p emin]
  by (simp_all add: nearest_minus)

lemma round_to_mono:
  assumes p: "1 \<le> p" and xz: "x \<le> z"
  shows "round_to p emin emax x \<le> round_to p emin emax z"
proof -
  note m = nearest_mono [OF p xz, of emin]
  have M: "0 < p2 (emax + 1)" by simp
  consider "x < 0" "z < 0" | "x < 0" "0 \<le> z" | "0 \<le> x" "0 \<le> z"
    using xz by linarith
  then show ?thesis
  proof cases
    case 1
    then show ?thesis
      using m nearest_sign(2) [of x p emin] nearest_sign(2) [of z p emin]
      by (auto simp: round_to_alt signed_inf_def)
  next
    case 2
    then show ?thesis
      using m nearest_sign(2) [of x p emin] nearest_sign(1) [of z p emin]
      by (auto simp: round_to_alt signed_inf_def)
  next
    case 3
    then show ?thesis
      using m nearest_sign(1) [of x p emin] nearest_sign(1) [of z p emin]
      by (auto simp: round_to_alt signed_inf_def)
  qed
qed

lemma round_to_minus: "round_to p emin emax (- x) = - round_to p emin emax x"
proof (cases "x = 0")
  case False
  then show ?thesis
    by (auto simp: round_to_alt nearest_minus signed_inf_def)
qed (simp add: round_to_def)

lemma round_to_multiple:
  assumes "x = of_int m * ulp p emin x" "\<bar>x\<bar> < p2 (emax + 1)"
  shows "round_to p emin emax x = Fin x"
  using nearest_multiple [OF assms(1)] assms(2) by (simp add: round_to_alt)

section \<open>Exact results, overflow and underflow\<close>

lemma p2_le_iff: "p2 k \<le> p2 l \<longleftrightarrow> k \<le> l"
  by (simp add: p2_def)

lemma p2_less_iff: "p2 k < p2 l \<longleftrightarrow> k < l"
  by (simp add: p2_def)

lemma p2_split: "k = i + j \<Longrightarrow> p2 k = p2 i * p2 j"
  by (simp add: p2_add)

lemma round_to_zero [simp]: "round_to p emin emax 0 = Fin 0"
  by (simp add: round_to_def)

lemma binade_nearest:
  assumes p: "1 \<le> p" and x: "0 < x" and v: "0 < nearest p emin x"
    and lt: "nearest p emin x < p2 (binade emin x + 1)"
  shows "binade emin (nearest p emin x) = binade emin x"
proof (cases "emin < binade emin x")
  case True
  then have "p2 (binade emin x) \<le> x"
    using binade_gt_normal [of emin x] x by simp
  then have "p2 (binade emin x) \<le> nearest p emin x"
    by (rule nearest_lower [OF p])
  then show ?thesis
    using lt v binade_ge [of emin x] by (intro binade_eq) simp_all
next
  case False
  then have E: "binade emin x = emin" using binade_ge [of emin x] by linarith
  show ?thesis
  proof (cases "p2 emin \<le> nearest p emin x")
    case True
    then show ?thesis using lt v unfolding E by (intro binade_eq) simp_all
  next
    case False
    then show ?thesis using v unfolding E by (intro binade_subnormal) simp_all
  qed
qed

lemma round_to_idem_pos:
  assumes p: "1 \<le> p" and x: "0 < x" and r: "round_to p emin emax x = Fin v"
  shows "round_to p emin emax v = Fin v"
proof -
  define E where "E = binade emin x"
  define U where "U = ulp p emin x"
  have U: "U = p2 (E - int p + 1)" by (simp add: U_def E_def ulp_def)
  have v: "v = nearest p emin x" "\<bar>v\<bar> < p2 (emax + 1)"
    using r by (auto simp: round_to_alt signed_inf_def split: if_splits)
  have v0: "0 \<le> v" unfolding v(1) using x by (intro nearest_nonneg) simp
  have up: "v \<le> p2 (E + 1)"
    unfolding v(1) E_def by (rule nearest_upper [OF p x])
  consider "v = 0" | "0 < v" "v < p2 (E + 1)" | "v = p2 (E + 1)"
    using v0 up by linarith
  then show ?thesis
  proof cases
    case 1
    then show ?thesis by simp
  next
    case 2
    then have "binade emin v = E"
      unfolding v(1) E_def by (intro binade_nearest [OF p x]) simp_all
    then have "ulp p emin v = U" by (simp add: U ulp_def)
    then have "v = of_int (round_even (x / U)) * ulp p emin v"
      by (simp add: v(1) nearest_def U_def)
    then show ?thesis using v(2) by (rule round_to_multiple)
  next
    case 3
    have "binade emin v = E + 1"
      unfolding 3 using binade_ge [of emin x]
      by (intro binade_eq) (simp_all add: p2_less_iff E_def)
    then have "binade emin v - int p + 1 = E + 2 - int p" by simp
    then have u: "ulp p emin v = p2 (E + 2 - int p)" by (simp only: ulp_def)
    have "p2 (E + 1) = p2 (int p - 1) * p2 (E + 2 - int p)"
      by (rule p2_split) simp
    also have "p2 (int p - 1) = of_int (2 ^ nat (int p - 1))"
      using p by (intro p2_nat) simp
    finally have "p2 (E + 1) = of_int (2 ^ nat (int p - 1)) * p2 (E + 2 - int p)" .
    then have "v = of_int (2 ^ nat (int p - 1)) * ulp p emin v"
      unfolding u 3 [symmetric] .
    then show ?thesis using v(2) by (rule round_to_multiple)
  qed
qed

lemma round_to_idem:
  assumes p: "1 \<le> p" and r: "round_to p emin emax x = Fin v"
  shows "round_to p emin emax v = Fin v"
proof -
  consider "x = 0" | "0 < x" | "x < 0" by linarith
  then show ?thesis
  proof cases
    case 1
    then show ?thesis using r by simp
  next
    case 2
    then show ?thesis using r by (rule round_to_idem_pos [OF p])
  next
    case 3
    have "round_to p emin emax (- x) = Fin (- v)"
      using r by (simp add: round_to_minus)
    then have "round_to p emin emax (- v) = Fin (- v)"
      using 3 by (intro round_to_idem_pos [OF p, of "- x"]) simp_all
    then show ?thesis
      using round_to_minus [of p emin emax "- v"] by simp
  qed
qed

lemma round_to_p2:
  assumes p: "1 \<le> p" and k: "emin - int p + 1 \<le> k" "k \<le> emax"
  shows "round_to p emin emax (p2 k) = Fin (p2 k)"
proof -
  define E where "E = max k emin"
  have "binade emin (p2 k) = E"
  proof (cases "emin \<le> k")
    case True
    then show ?thesis
      unfolding E_def by (simp add: max_def) (intro binade_eq, simp_all add: p2_less_iff)
  next
    case False
    then have "\<bar>p2 k\<bar> < p2 emin" by (simp add: p2_less_iff)
    moreover have "p2 k \<noteq> 0" using p2_pos [of k] by linarith
    ultimately have "binade emin (p2 k) = emin" by (intro binade_subnormal)
    then show ?thesis
      using False unfolding E_def by (simp add: max_def)
  qed
  then have u: "ulp p emin (p2 k) = p2 (E - int p + 1)" by (simp add: ulp_def)
  have j: "0 \<le> k - (E - int p + 1)" using k p by (simp add: E_def max_def)
  have "p2 k = p2 (k - (E - int p + 1)) * p2 (E - int p + 1)"
    by (rule p2_split) simp
  then have "p2 k = of_int (2 ^ nat (k - (E - int p + 1))) * ulp p emin (p2 k)"
    unfolding u p2_nat [OF j] .
  moreover have "\<bar>p2 k\<bar> < p2 (emax + 1)" using k by (simp add: p2_less_iff)
  ultimately show ?thesis by (rule round_to_multiple)
qed

lemma round_to_overflow:
  assumes p: "1 \<le> p" and e: "emin \<le> emax + 1" and x: "p2 (emax + 1) \<le> x"
  shows "round_to p emin emax x = PInf"
proof -
  have x0: "0 < x" using x p2_pos [of "emax + 1"] by linarith
  have "p2 emin \<le> \<bar>x\<bar>" using x x0 p2_mono [OF e] by simp
  then have n: "p2 (binade emin x) \<le> \<bar>x\<bar>" "\<bar>x\<bar> < p2 (binade emin x + 1)"
    by (rule binade_normal)+
  then have "p2 (emax + 1) < p2 (binade emin x + 1)" using x x0 by simp
  then have "p2 (emax + 1) \<le> p2 (binade emin x)" by (simp add: p2_less_iff p2_le_iff)
  moreover have "p2 (binade emin x) \<le> nearest p emin x"
    using n(1) x0 by (intro nearest_lower [OF p]) simp
  ultimately have "p2 (emax + 1) \<le> \<bar>nearest p emin x\<bar>" by linarith
  then show ?thesis using x0 by (simp add: round_to_alt signed_inf_def)
qed

lemma round_to_underflow:
  assumes p: "1 \<le> p" and x: "\<bar>x\<bar> < p2 (emin - int p)"
  shows "round_to p emin emax x = Fin 0"
proof (cases "x = 0")
  case False
  have "p2 (emin - int p) \<le> p2 emin" by (intro p2_mono) simp
  then have "binade emin x = emin"
    using x False by (intro binade_subnormal) simp_all
  then have u: "ulp p emin x = p2 (emin - int p + 1)" by (simp add: ulp_def)
  have "p2 (emin - int p + 1) = 2 * p2 (emin - int p)"
    using p2_add [of "emin - int p" 1] by (simp add: p2_def)
  then have "\<bar>x / ulp p emin x\<bar> < 1 / 2"
    using x unfolding u by (simp add: field_simps)
  then have "nearest p emin x = 0"
    by (simp add: nearest_def round_even_half_zero)
  then show ?thesis by (simp add: round_to_alt)
qed simp

lemma round_to_eighth:
  assumes p: "6 \<le> p" and e: "emin \<le> - 3" "2 \<le> emax" and k: "\<bar>k\<bar> \<le> 32"
  shows "round_to p emin emax (of_int k / 8) = Fin (of_int k / 8)"
proof (cases "k = 0")
  case False
  define x :: real where "x = of_int k / 8"
  have e8: "p2 (- 3) = 1 / 8" "p2 2 = 4" "p2 3 = 8"
    by (simp_all add: p2_def powr_minus_divide)
  have lo: "p2 (- 3) \<le> \<bar>x\<bar>" and hi: "\<bar>x\<bar> \<le> p2 2"
    using False k unfolding e8 x_def by simp_all
  have "p2 emin \<le> \<bar>x\<bar>" using lo p2_mono [OF e(1)] by linarith
  then have n: "p2 (binade emin x) \<le> \<bar>x\<bar>" "\<bar>x\<bar> < p2 (binade emin x + 1)"
    by (rule binade_normal)+
  define E where "E = binade emin x"
  have "p2 E \<le> p2 2" using n(1) hi unfolding E_def by linarith
  then have E: "E \<le> 2" by (simp add: p2_le_iff)
  have j: "0 \<le> int p - 4 - E" using E p by simp
  have u: "ulp p emin x = p2 (E - int p + 1)" by (simp add: ulp_def E_def)
  have "p2 (- 3) = p2 (int p - 4 - E) * p2 (E - int p + 1)"
    by (rule p2_split) simp
  then have "1 / 8 = of_int (2 ^ nat (int p - 4 - E)) * ulp p emin x"
    unfolding u p2_nat [OF j] e8 .
  then have "x = of_int (k * 2 ^ nat (int p - 4 - E)) * ulp p emin x"
    unfolding x_def by simp
  moreover have "\<bar>x\<bar> < p2 (emax + 1)"
  proof -
    have "p2 2 < p2 (emax + 1)" using e(2) by (simp add: p2_less_iff)
    then show ?thesis using hi by linarith
  qed
  ultimately have "round_to p emin emax x = Fin x" by (rule round_to_multiple)
  then show ?thesis by (simp add: x_def)
qed simp

section \<open>The two machines are sound\<close>

lemma sound_round_to:
  assumes "6 \<le> p" "emin \<le> - 3" "2 \<le> emax"
  shows "sound_rounding (round_to p emin emax)"
proof -
  have p: "1 \<le> p" using assms(1) by simp
  show ?thesis
    unfolding sound_rounding_def
    using round_to_mono [OF p] round_to_eighth [OF assms] round_to_minus
      round_to_idem [OF p]
    by blast
qed

lemma sound_binary64: "sound_rounding binary64"
  unfolding binary64_def by (rule sound_round_to) simp_all

lemma sound_binary32: "sound_rounding binary32"
  unfolding binary32_def by (rule sound_round_to) simp_all

lemma sound_Fin: "sound_rounding Fin"
  by (simp add: sound_rounding_def)

lemma sound_exact: "sound_fp exact"
  by (simp add: sound_fp_def exact_def sound_Fin)

lemma sound_ieee: "sound_fp ieee"
proof -
  note r = sound_binary64
  note e = sr_exact [OF r]
  have s: "Fin (- 1) \<le> binary64 (sin x)" "binary64 (sin x) \<le> Fin 1" for x
    using sr_mono [OF r, of "- 1" "sin x"] sr_mono [OF r, of "sin x" 1] e by simp_all
  have c: "Fin (- 1) \<le> binary64 (cos x)" "binary64 (cos x) \<le> Fin 1" for x
    using sr_mono [OF r, of "- 1" "cos x"] sr_mono [OF r, of "cos x" 1] e by simp_all
  have x: "Fin 0 \<le> binary64 (exp x)" for x
    using sr_nonneg [OF r, of "exp x"] by simp
  have m: "\<exists>p. m_pi ieee = Fin p \<and> 0 < p"
    by (intro exI [of _ "884279719003555 / 2 ^ 48"]) (simp add: ieee_def)
  show ?thesis
    unfolding sound_fp_def using m r sound_binary32 s c x e by (simp add: ieee_def)
qed

section \<open>Facts about the IEEE machine\<close>

lemma binary64_p2: "- 1074 \<le> k \<Longrightarrow> k \<le> 1023 \<Longrightarrow> binary64 (p2 k) = Fin (p2 k)"
  unfolding binary64_def by (rule round_to_p2) simp_all

lemma binary64_overflow: "p2 1024 \<le> x \<Longrightarrow> binary64 x = PInf"
  unfolding binary64_def using round_to_overflow [of 53 "- 1022" 1023 x] by simp

lemma binary32_p2: "- 149 \<le> k \<Longrightarrow> k \<le> 127 \<Longrightarrow> binary32 (p2 k) = Fin (p2 k)"
  unfolding binary32_def by (rule round_to_p2) simp_all

lemma binary32_overflow: "p2 128 \<le> x \<Longrightarrow> binary32 x = PInf"
  unfolding binary32_def using round_to_overflow [of 24 "- 126" 127 x] by simp

lemma p2_sign [simp]: "\<not> p2 k < 0" "p2 k \<noteq> 0"
  using p2_pos [of k] by linarith+

lemma p2_mult [simp]: "p2 k * p2 l = p2 (k + l)"
  by (simp add: p2_add)

lemma p2_divide [simp]: "p2 k / p2 l = p2 (k - l)"
  by (simp add: p2_diff)

lemmas ieee_ops = fadd_def fsub_def fmul_def fdiv_def sub_r_def power2_d_def power3_d_def

lemma ieee_fields [simp]:
  "rnd ieee = binary64" "rndf ieee = binary32"
  "lexp ieee x = binary64 (exp x)" "lsin ieee x = binary64 (sin x)"
  "lcos ieee x = binary64 (cos x)"
  by (simp_all add: ieee_def)

lemma binary64_small [simp]:
  "binary64 0 = Fin 0" "binary64 1 = Fin 1" "binary64 2 = Fin 2"
  using sr_exact [OF sound_binary64] by simp_all

lemma binary64_between_p2:
  assumes "- 1074 \<le> k" "k \<le> 1023" "\<bar>x\<bar> \<le> p2 k"
  shows "\<exists>v. binary64 x = Fin v \<and> \<bar>v\<bar> \<le> p2 k"
proof -
  note r = sound_binary64
  have hi: "binary64 (p2 k) = Fin (p2 k)" by (rule binary64_p2 [OF assms(1,2)])
  have lo: "binary64 (- p2 k) = Fin (- p2 k)"
    using sr_neg [OF r, of "p2 k"] hi by simp
  have "- p2 k \<le> x" "x \<le> p2 k" using assms(3) by linarith+
  then obtain v where "binary64 x = Fin v" "- p2 k \<le> v" "v \<le> p2 k"
    using sr_between [OF r lo hi, of x] by blast
  then show ?thesis by (intro exI [of _ v]) simp
qed

section \<open>Bounded values on the IEEE machine\<close>

lemma bounded_by_Fin: "\<bar>v\<bar> \<le> p2 k \<Longrightarrow> bounded_by k (Fin v)"
  by (simp add: bounded_by_def)

lemma bounded_by_finite: "bounded_by k d \<Longrightarrow> is_finite d"
  by (auto simp: bounded_by_def)

lemma bounded_by_mono: "bounded_by i d \<Longrightarrow> i \<le> j \<Longrightarrow> bounded_by j d"
  using p2_mono [of i j] by (auto simp: bounded_by_def)

lemma bounded_by_binary64:
  assumes "\<bar>x\<bar> \<le> p2 k" "- 1074 \<le> k" "k \<le> 1023"
  shows "bounded_by k (binary64 x)"
  using binary64_between_p2 [OF assms(2,3,1)] by (simp add: bounded_by_def)

lemma bounded_by_mul:
  assumes "bounded_by i c" "bounded_by j d" "- 1074 \<le> i + j" "i + j \<le> 1023"
  shows "bounded_by (i + j) (fmul ieee c d)"
proof -
  obtain x z where v: "c = Fin x" "\<bar>x\<bar> \<le> p2 i" "d = Fin z" "\<bar>z\<bar> \<le> p2 j"
    using assms(1,2) by (auto simp: bounded_by_def)
  have "\<bar>x * z\<bar> \<le> p2 i * p2 j"
    unfolding abs_mult using v by (intro mult_mono) simp_all
  then have "\<bar>x * z\<bar> \<le> p2 (i + j)" by simp
  then show ?thesis
    unfolding v fmul_def using bounded_by_binary64 [OF _ assms(3,4)] by simp
qed

lemma bounded_by_add:
  assumes "bounded_by i c" "bounded_by i d" "- 1075 \<le> i" "i < 1023"
  shows "bounded_by (i + 1) (fadd ieee c d)"
proof -
  obtain x z where v: "c = Fin x" "\<bar>x\<bar> \<le> p2 i" "d = Fin z" "\<bar>z\<bar> \<le> p2 i"
    using assms(1,2) by (auto simp: bounded_by_def)
  have "p2 (i + 1) = 2 * p2 i" using p2_add [of i 1] by (simp add: p2_def)
  then have "\<bar>x + z\<bar> \<le> p2 (i + 1)" using v by linarith
  then show ?thesis
    unfolding v fadd_def using bounded_by_binary64 [of "x + z" "i + 1"] assms(3,4) by simp
qed

lemma bounded_by_neg: "bounded_by i d \<Longrightarrow> bounded_by i (- d)"
  by (auto simp: bounded_by_def)

lemma bounded_by_sub:
  assumes "bounded_by i c" "bounded_by i d" "- 1075 \<le> i" "i < 1023"
  shows "bounded_by (i + 1) (fsub ieee c d)"
  unfolding fsub_def sub_r_def fadd_def [symmetric]
  using bounded_by_add [OF assms(1) bounded_by_neg [OF assms(2)] assms(3,4)] .

lemma bounded_by_div:
  assumes "bounded_by i c" "- 1074 \<le> i - k" "i - k \<le> 1023"
  shows "bounded_by (i - k) (fdiv ieee c (Fin (p2 k)))"
proof -
  obtain x where v: "c = Fin x" "\<bar>x\<bar> \<le> p2 i"
    using assms(1) by (auto simp: bounded_by_def)
  have "\<bar>x\<bar> / p2 k \<le> p2 i / p2 k"
    using v(2) by (intro divide_right_mono) simp_all
  then have "\<bar>x / p2 k\<bar> \<le> p2 (i - k)" by (simp add: abs_divide)
  then show ?thesis
    unfolding v fdiv_def using bounded_by_binary64 [OF _ assms(2,3)] by simp
qed

lemma bounded_by_sin: "bounded_by k d \<Longrightarrow> bounded_by 0 (sin_d ieee d)"
  using bounded_by_binary64 [of "sin x" 0 for x] by (auto simp: bounded_by_def)

lemma bounded_by_cos: "bounded_by k d \<Longrightarrow> bounded_by 0 (cos_d ieee d)"
  using bounded_by_binary64 [of "cos x" 0 for x] by (auto simp: bounded_by_def)

lemma bounded_by_exp:
  assumes "bounded_by 0 d"
  shows "bounded_by 2 (exp_d ieee d)"
proof -
  obtain w where w: "d = Fin w" "\<bar>w\<bar> \<le> 1" using assms by (auto simp: bounded_by_def)
  have "w \<le> 1" using w by simp
  then have "exp w \<le> exp 1" by (simp only: exp_le_cancel_iff)
  then have "exp w \<le> 4" using exp_le by linarith
  then have "\<bar>exp w\<bar> \<le> p2 2" by (simp add: p2_def)
  then show ?thesis unfolding w using bounded_by_binary64 [of "exp w" 2] by simp
qed

lemma div_PInf: "is_finite c \<Longrightarrow> fdiv ieee c PInf = Fin 0"
  by (cases c) (simp_all add: fdiv_def)

section \<open>NaN stays NaN in the loop\<close>

lemma mul_NaN [simp]: "mul_r r c NaN = NaN" "mul_r r NaN c = NaN"
  by (cases c; simp)+

lemma add_NaN [simp]: "add_r r c NaN = NaN" "add_r r NaN c = NaN"
  by (cases c; simp)+

lemma div_NaN [simp]: "div_r r c NaN = NaN" "div_r r NaN c = NaN"
  by (cases c; simp)+

lemma newton_root_NaN: "newton_root fp NaN a T = NaN"
  by (simp add: newton_root_def Let_def ddy_def dy_def fadd_def fsub_def fmul_def fdiv_def
      sub_r_def)

lemma clamp_t_NaN: "clamp_t fp NaN t_max = NaN"
  by (cases t_max) (simp_all add: clamp_t_def)

lemma newton_loop_NaN: "newton_loop fp i NaN a T t_max = NaN"
proof (induction "6 - i" arbitrary: i)
  case 0
  then show ?case by (subst newton_loop.simps) simp
next
  case (Suc n)
  then have "n = 6 - (i + 1)" by simp
  then show ?case
    using Suc.hyps(1) by (subst newton_loop.simps) (simp add: newton_root_NaN clamp_t_NaN)
qed

lemma binary64_27: "binary64 (27 / 10) = Fin (3039929748475085 / 2 ^ 50)"
proof -
  have b: "binade (- 1022) (27 / 10) = 1"
    by (intro binade_eq) (simp_all add: p2_def)
  have u: "ulp 53 (- 1022) (27 / 10) = 1 / 2 ^ 51"
    by (simp add: ulp_def b p2_neg)
  have q: "27 / 10 / (1 / 2 ^ 51) = (60798594969501696 / 10 :: real)" by simp
  have f: "\<lfloor>60798594969501696 / 10 :: real\<rfloor> = 6079859496950169" by simp
  have n: "round_even (60798594969501696 / 10) = 6079859496950170"
    unfolding round_even_def Let_def f by simp
  have v: "nearest 53 (- 1022) (27 / 10) = 3039929748475085 / 2 ^ 50"
    unfolding nearest_def u q n by simp
  have "\<bar>3039929748475085 / 2 ^ 50 :: real\<bar> < p2 1024"
  proof -
    have "\<bar>3039929748475085 / 2 ^ 50 :: real\<bar> < p2 2" by (simp add: p2_def)
    also have "p2 2 \<le> p2 1024" by (simp add: p2_le_iff)
    finally show ?thesis .
  qed
  then show ?thesis
    unfolding binary64_def round_to_alt v by simp
qed

lemma div_by_PInf: "div_r r c PInf = Fin 0 \<or> div_r r c PInf = NaN"
  by (cases c) simp_all

section \<open>The response model\<close>

subsection \<open>Over the real numbers\<close>

lemma exact_ops [simp]:
  "fadd exact (Fin x) (Fin z) = Fin (x + z)"
  "fsub exact (Fin x) (Fin z) = Fin (x - z)"
  "fmul exact (Fin x) (Fin z) = Fin (x * z)"
  "z \<noteq> 0 \<Longrightarrow> fdiv exact (Fin x) (Fin z) = Fin (x / z)"
  "lexp exact x = Fin (exp x)"
  "lsin exact x = Fin (sin x)"
  "lcos exact x = Fin (cos x)"
  by (simp_all add: fadd_def fsub_def fmul_def fdiv_def sub_r_def exact_def)

lemma exact_powers [simp]:
  "power2_d exact (Fin x) = Fin (x\<^sup>2)"
  "power3_d exact (Fin x) = Fin (x ^ 3)"
  by (simp_all add: power2_d_def power3_d_def power2_eq_square power3_eq_cube)

lemma denominator_ge_1: "1 \<le> (a * T)\<^sup>2 + (1::real)"
  by simp

lemma denominator_nonzero [simp]: "(a * T)\<^sup>2 + (1::real) \<noteq> 0"
  using denominator_ge_1 [of a T] by linarith

lemma y_exact: "T \<noteq> 0 \<Longrightarrow> y exact (Fin t) (Fin a) (Fin T) = Fin (y_spec t a T)"
  by (simp add: y_def y_spec_def)

lemma dy_exact: "T \<noteq> 0 \<Longrightarrow> dy exact (Fin t) (Fin a) (Fin T) = Fin (dy_spec t a T)"
  by (simp add: dy_def dy_spec_def)

lemma ddy_exact: "T \<noteq> 0 \<Longrightarrow> ddy exact (Fin t) (Fin a) (Fin T) = Fin (ddy_spec t a T)"
  by (simp add: ddy_def ddy_spec_def)

lemma ddy_spec_value: "ddy_spec 0 (p2 400) (p2 (- 400)) = p2 800"
proof -
  have c: "p2 400 ^ 3 = p2 1200" "(p2 400)\<^sup>2 = p2 800"
    by (simp_all add: power3_eq_cube power2_eq_square)
  have "p2 1200 * p2 (- 400) + p2 800 = 2 * p2 800" by simp
  then show ?thesis
    by (simp add: ddy_spec_def c power2_eq_square)
qed

text \<open>
  Claim C2, as stated, equates the values that \<open>y\<close>, \<open>dy\<close> and \<open>ddy\<close> return with the
  closed forms. On the IEEE machine, at \<open>t = 0\<close>, \<open>a = 2 ^ 400\<close> and \<open>T = 2 ^ -400\<close> the
  cube \<^verbatim>\<open>power3(a)\<close> overflows and \<open>ddy\<close> returns \<open>+\<infinity>\<close>, while the closed form is the
  finite number \<open>2 ^ 800\<close>, itself a double.
\<close>

theorem ddy_overflow_counterexample:
  "ddy ieee (Fin 0) (Fin (p2 400)) (Fin (p2 (- 400))) = PInf
    \<and> ddy_spec 0 (p2 400) (p2 (- 400)) = p2 800
    \<and> binary64 (p2 800) = Fin (p2 800)"
proof -
  have o: "binary64 (p2 1200) = PInf" by (rule binary64_overflow) (simp add: p2_le_iff)
  have "ddy ieee (Fin 0) (Fin (p2 400)) (Fin (p2 (- 400))) = PInf"
    by (simp add: ddy_def ieee_ops binary64_p2 o signed_inf_def)
  then show ?thesis by (simp add: ddy_spec_value binary64_p2)
qed

text \<open>
  Claim C2, amended. Read over the real numbers, with every operation exact, the
  expressions that \<open>y\<close>, \<open>dy\<close> and \<open>ddy\<close> evaluate are the three closed forms of the
  specification, for every \<open>t \<ge> 0\<close>, \<open>a > 0\<close> and \<open>T > 0\<close>.
\<close>

theorem response_closed_forms:
  assumes "0 \<le> t" "0 < a" "0 < T"
  shows "y exact (Fin t) (Fin a) (Fin T) = Fin (y_spec t a T)
    \<and> dy exact (Fin t) (Fin a) (Fin T) = Fin (dy_spec t a T)
    \<and> ddy exact (Fin t) (Fin a) (Fin T) = Fin (ddy_spec t a T)"
  using assms by (simp add: y_exact dy_exact ddy_exact)

theorem response_closed_forms_witness:
  "y exact (Fin 0) (Fin 1) (Fin 1) = Fin 0 \<and> dy exact (Fin 0) (Fin 1) (Fin 1) = Fin 0
    \<and> ddy exact (Fin 0) (Fin 1) (Fin 1) = Fin 1"
  using response_closed_forms [of 0 1 1] by (simp add: y_spec_def dy_spec_def ddy_spec_def)

lemma y_spec_deriv:
  assumes T: "T \<noteq> 0"
  shows "((\<lambda>t. y_spec t a T) has_real_derivative dy_spec t a T) (at t)"
proof -
  have "((\<lambda>t. - a * T * cos (a * t) + a * T * exp (- t / T) + sin (a * t))
      has_real_derivative a\<^sup>2 * T * sin (a * t) + a * cos (a * t) - a * exp (- t / T)) (at t)"
    using T by (auto intro!: derivative_eq_intros simp: field_simps power2_eq_square)
  then show ?thesis
    unfolding y_spec_def dy_spec_def by (rule DERIV_cdivide)
qed

lemma dy_spec_deriv:
  assumes T: "T \<noteq> 0"
  shows "((\<lambda>t. dy_spec t a T) has_real_derivative ddy_spec t a T) (at t)"
proof -
  have "((\<lambda>t. a\<^sup>2 * T * sin (a * t) + a * cos (a * t) - a * exp (- t / T))
      has_real_derivative
        a ^ 3 * T * cos (a * t) - a\<^sup>2 * sin (a * t) + (a / T) * exp (- t / T)) (at t)"
    using T
    by (auto intro!: derivative_eq_intros simp: field_simps power2_eq_square power3_eq_cube)
  then show ?thesis
    unfolding dy_spec_def ddy_spec_def by (rule DERIV_cdivide)
qed

text \<open>
  Claim C3. Read over the real numbers, for all \<open>a > 0\<close> and \<open>T > 0\<close> and at every real
  \<open>t\<close>, the three functions return finite numbers, the function \<open>t \<mapsto> dy(t, a, T)\<close> is
  the derivative of \<open>t \<mapsto> y(t, a, T)\<close>, and \<open>t \<mapsto> ddy(t, a, T)\<close> is the derivative of
  \<open>t \<mapsto> dy(t, a, T)\<close>.
\<close>

theorem derivative_consistency:
  assumes "0 < a" "0 < T"
  shows "((\<lambda>t. real_of (y exact (Fin t) (Fin a) (Fin T)))
            has_real_derivative real_of (dy exact (Fin t) (Fin a) (Fin T))) (at t)
    \<and> ((\<lambda>t. real_of (dy exact (Fin t) (Fin a) (Fin T)))
            has_real_derivative real_of (ddy exact (Fin t) (Fin a) (Fin T))) (at t)
    \<and> is_finite (y exact (Fin t) (Fin a) (Fin T)) \<and> is_finite (dy exact (Fin t) (Fin a) (Fin T))
    \<and> is_finite (ddy exact (Fin t) (Fin a) (Fin T))"
proof -
  have T0: "T \<noteq> 0" using assms by simp
  show ?thesis
    by (simp add: y_exact [OF T0] dy_exact [OF T0] ddy_exact [OF T0] y_spec_deriv [OF T0]
        dy_spec_deriv [OF T0])
qed

theorem derivative_consistency_witness:
  "((\<lambda>t. real_of (y exact (Fin t) (Fin 1) (Fin 1))) has_real_derivative 0) (at 0)
    \<and> ((\<lambda>t. real_of (dy exact (Fin t) (Fin 1) (Fin 1))) has_real_derivative 1) (at 0)"
proof -
  have "dy exact (Fin 0) (Fin 1) (Fin 1) = Fin 0" "ddy exact (Fin 0) (Fin 1) (Fin 1) = Fin 1"
    by (simp_all add: dy_exact ddy_exact dy_spec_def ddy_spec_def)
  then show ?thesis using derivative_consistency [of 1 1 0] by simp
qed

subsection \<open>On a sound machine\<close>

lemma denominator_ge_one:
  assumes fp: "sound_fp fp"
  shows "Fin 1 \<le> fadd fp (power2_d fp (fmul fp (Fin a) (Fin T))) (Fin 1)"
proof -
  note r = sound_fp_rnd [OF fp]
  have sq: "Fin 0 \<le> power2_d fp (fmul fp (Fin a) (Fin T))"
  proof (cases "rnd fp (a * T)")
    case (Fin p)
    then show ?thesis
      using sr_nonneg [OF r, of "p * p"] by (simp add: power2_d_def fmul_def)
  next
    case NaN
    then show ?thesis using sr_not_nan [OF r, of "a * T"] by simp
  qed (simp_all add: power2_d_def fmul_def signed_inf_def)
  show ?thesis
  proof (cases "power2_d fp (fmul fp (Fin a) (Fin T))")
    case (Fin q)
    then have "0 \<le> q" using sq by simp
    then have "rnd fp 1 \<le> rnd fp (q + 1)" by (intro sr_mono [OF r]) simp
    then show ?thesis using Fin sr_exact(2) [OF r] by (simp add: fadd_def)
  qed (use sq in \<open>simp_all add: fadd_def\<close>)
qed

lemma zero_div:
  assumes "sound_rounding r" "Fin 1 \<le> D"
  shows "div_r r (Fin 0) D = Fin 0"
  using assms sr_exact(1) [OF assms(1)] by (cases D) auto

lemma zero_response:
  assumes fp: "sound_fp fp" and T: "T \<noteq> 0" and fin: "is_finite (fmul fp (Fin a) (Fin T))"
  shows "y fp (Fin 0) (Fin a) (Fin T) = Fin 0"
proof -
  note r = sound_fp_rnd [OF fp]
  note e = sr_exact [OF r]
  have lib: "lsin fp 0 = Fin 0" "lcos fp 0 = Fin 1" "lexp fp 0 = Fin 1"
    using fp by (simp_all add: sound_fp_def)
  obtain p where p: "rnd fp (a * T) = Fin p"
    using fin by (cases "rnd fp (a * T)") (simp_all add: fmul_def)
  have pp: "rnd fp p = Fin p" by (rule sr_idem [OF r p])
  have np: "rnd fp (- (a * T)) = Fin (- p)" "rnd fp (- p) = Fin (- p)"
    using sr_neg [OF r, of "a * T"] sr_neg [OF r, of p] p pp by simp_all
  have num: "fadd fp
         (fadd fp
           (fmul fp (fmul fp (- Fin a) (Fin T)) (cos_d fp (fmul fp (Fin a) (Fin 0))))
           (fmul fp (fmul fp (Fin a) (Fin T)) (exp_d fp (fdiv fp (- Fin 0) (Fin T)))))
         (sin_d fp (fmul fp (Fin a) (Fin 0))) = Fin 0"
    using T by (simp add: fadd_def fmul_def fdiv_def e lib p pp np)
  have "y fp (Fin 0) (Fin a) (Fin T)
      = fdiv fp (Fin 0) (fadd fp (power2_d fp (fmul fp (Fin a) (Fin T))) (Fin 1))"
    unfolding y_def num ..
  then show ?thesis
    using zero_div [OF r denominator_ge_one [OF fp, of a T]] by (simp add: fdiv_def)
qed

lemma response_nan_at_zero:
  "y fp (Fin 0) (Fin a) (Fin 0) = NaN" "dy fp (Fin 0) (Fin a) (Fin 0) = NaN"
proof -
  have e: "exp_d fp (fdiv fp (- Fin 0) (Fin 0)) = NaN"
    by (simp add: fdiv_def)
  have m: "mul_r r c NaN = NaN" for r c by (cases c) simp_all
  have a: "add_r r c NaN = NaN" "add_r r NaN c = NaN" for r c by (cases c; simp)+
  have d: "div_r r NaN c = NaN" for r c by (cases c) simp_all
  show "y fp (Fin 0) (Fin a) (Fin 0) = NaN"
    unfolding y_def e by (simp add: fmul_def fadd_def fdiv_def m a d)
  show "dy fp (Fin 0) (Fin a) (Fin 0) = NaN"
    unfolding dy_def e by (simp add: fmul_def fadd_def fsub_def sub_r_def fdiv_def m a d)
qed

lemma div_zero_not_finite: "\<not> is_finite (div_r r c (Fin 0))"
  by (cases c) (simp_all add: signed_inf_def)

lemma add_not_finite: "\<not> is_finite d \<Longrightarrow> \<not> is_finite (add_r r c d)"
  by (cases c; cases d) simp_all

lemma div_not_finite: "\<not> is_finite c \<Longrightarrow> \<not> is_finite (div_r r c d)"
  by (cases c; cases d) (simp_all add: signed_inf_def)

lemma ddy_T0: "\<not> is_finite (ddy fp (Fin t) (Fin a) (Fin 0))"
  unfolding ddy_def fadd_def fdiv_def
  by (intro div_not_finite add_not_finite div_zero_not_finite)

text \<open>
  Claim C7, as stated, gives \<open>y(0, a, T) = 0\<close> for all \<open>a > 0\<close> and \<open>T > 0\<close>. On the IEEE
  machine, at \<open>a = 2 ^ 1023\<close> and \<open>T = 2\<close> the product \<^verbatim>\<open>a*T\<close> overflows, the numerator
  is \<open>-\<infinity> + \<infinity>\<close>, and \<open>y\<close> returns NaN.
\<close>

theorem y_overflow_counterexample: "y ieee (Fin 0) (Fin (p2 1023)) (Fin 2) = NaN"
proof -
  have "p2 1024 \<le> p2 1023 * 2"
    using p2_add [of 1023 1] by (simp add: p2_def)
  then have o: "binary64 (p2 1023 * 2) = PInf" by (rule binary64_overflow)
  then have n: "binary64 (- (p2 1023 * 2)) = MInf"
    using sr_neg [OF sound_binary64, of "p2 1023 * 2"] by simp
  show ?thesis
    by (simp add: y_def ieee_ops o n signed_inf_def)
qed

text \<open>
  Claim C7, amended. On a sound machine, for all \<open>a > 0\<close> and \<open>T > 0\<close> whose product
  \<^verbatim>\<open>a*T\<close> does not overflow, the response ratio at time zero is exactly zero.
\<close>

theorem y_at_zero:
  assumes "sound_fp fp" "0 < a" "0 < T" "is_finite (fmul fp (Fin a) (Fin T))"
  shows "y fp (Fin 0) (Fin a) (Fin T) = Fin 0"
  using zero_response [OF assms(1) _ assms(4)] assms(3) by simp

theorem y_at_zero_witness: "y ieee (Fin 0) (Fin 2) (Fin 3) = Fin 0"
proof -
  have "bounded_by 3 (binary64 6)"
    by (rule bounded_by_binary64) (simp_all add: p2_def)
  then have "is_finite (fmul ieee (Fin 2) (Fin 3))"
    by (auto simp: fmul_def bounded_by_def)
  then show ?thesis
    using y_at_zero [OF sound_ieee, of 2 3] by simp
qed

text \<open>
  Claim C9, as stated, says that \<open>y\<close> and \<open>dy\<close> never divide by zero and are total over
  all real inputs. Both evaluate \<^verbatim>\<open>exp(-t/T)\<close>, which divides by \<open>T\<close>: at \<open>t = 0\<close>,
  \<open>a = 1\<close>, \<open>T = 0\<close> the quotient is zero by zero, and both functions return NaN.
\<close>

theorem response_total_counterexample:
  "y ieee (Fin 0) (Fin 1) (Fin 0) = NaN \<and> dy ieee (Fin 0) (Fin 1) (Fin 0) = NaN"
  by (simp add: response_nan_at_zero)

text \<open>
  Claim C9, amended. On a sound machine, for all finite \<open>a\<close> and \<open>T\<close> the common
  denominator \<^verbatim>\<open>power2(a*T) + 1\<close>, as computed, is at least 1 (it may be \<open>+\<infinity>\<close>) and is
  never NaN, so the outer division of the three functions never divides by zero; \<open>y\<close>
  and \<open>dy\<close> are not total, they return NaN at \<open>t = 0\<close>, \<open>T = 0\<close> for every \<open>a\<close>; and
  \<open>ddy\<close> returns a finite number only when \<open>T\<close> is nonzero.
\<close>

theorem response_defined:
  assumes "sound_fp fp"
  shows "Fin 1 \<le> fadd fp (power2_d fp (fmul fp (Fin a) (Fin T))) (Fin 1)
    \<and> y fp (Fin 0) (Fin a) (Fin 0) = NaN \<and> dy fp (Fin 0) (Fin a) (Fin 0) = NaN
    \<and> (is_finite (ddy fp (Fin t) (Fin a) (Fin T)) \<longrightarrow> T \<noteq> 0)"
  using denominator_ge_one [OF assms, of a T] response_nan_at_zero [of fp a] ddy_T0 [of fp t a]
  by auto

theorem response_defined_witness:
  "Fin 1 \<le> fadd ieee (power2_d ieee (fmul ieee (Fin 1) (Fin 1))) (Fin 1)
    \<and> ddy ieee (Fin 0) (Fin 1) (Fin 1) = Fin 1 \<and> (1::real) \<noteq> 0"
proof -
  have "ddy ieee (Fin 0) (Fin 1) (Fin 1) = Fin 1"
    by (simp add: ddy_def ieee_ops)
  then show ?thesis
    using response_defined [OF sound_ieee, of 1 1 0] by simp
qed

section \<open>The peak finder\<close>

text \<open>
  Claim C6, as stated, equates the root of the tangent line with the Newton update
  whenever \<open>ddy\<close> is not zero. On the IEEE machine, at \<open>t = 0\<close>, \<open>a = 2 ^ 400\<close>, \<open>T = 1\<close>
  the cube \<^verbatim>\<open>power3(a)\<close> overflows: \<open>ddy\<close> is \<open>+\<infinity>\<close>, \<^verbatim>\<open>A*t\<close> is infinity times zero,
  so \<open>- B / A\<close> is NaN, while \<open>t - dy / ddy\<close> is 0.
\<close>

theorem newton_root_overflow_counterexample:
  "ddy ieee (Fin 0) (Fin (p2 400)) (Fin 1) = PInf
    \<and> newton_root ieee (Fin 0) (Fin (p2 400)) (Fin 1) = NaN
    \<and> fsub ieee (Fin 0)
         (fdiv ieee (dy ieee (Fin 0) (Fin (p2 400)) (Fin 1))
            (ddy ieee (Fin 0) (Fin (p2 400)) (Fin 1))) = Fin 0"
proof -
  have o: "binary64 (p2 1200) = PInf" by (rule binary64_overflow) (simp add: p2_le_iff)
  have "p2 800 + 1 \<le> p2 801"
    using p2_add [of 800 1] p2_mono [of 0 800] by (simp add: p2_def)
  then obtain d where d: "binary64 (p2 800 + 1) = Fin d" "p2 800 \<le> d"
    using sr_between [OF sound_binary64 binary64_p2 binary64_p2, of 800 801 "p2 800 + 1"]
    by auto
  have d0: "0 < d" using d(2) p2_pos [of 800] by linarith
  have A: "ddy ieee (Fin 0) (Fin (p2 400)) (Fin 1) = PInf"
    using d(1) d0 by (simp add: ddy_def ieee_ops binary64_p2 o signed_inf_def)
  have B: "dy ieee (Fin 0) (Fin (p2 400)) (Fin 1) = Fin 0"
    using d(1) d0 by (simp add: dy_def ieee_ops binary64_p2)
  show ?thesis
    by (simp add: newton_root_def Let_def A B ieee_ops)
qed

text \<open>
  Claim C6, amended. Read over the real numbers, with every operation exact: whenever
  \<open>ddy(t, a, T)\<close> is not zero, the root of the tangent line that the loop computes,
  \<open>- B / A\<close> with \<open>A = ddy(t, a, T)\<close> and \<open>B = dy(t, a, T) - A t\<close>, is the Newton update
  \<open>t - dy(t, a, T) / ddy(t, a, T)\<close>.
\<close>

theorem newton_root_standard:
  assumes "ddy exact (Fin t) (Fin a) (Fin T) \<noteq> Fin 0"
  shows "newton_root exact (Fin t) (Fin a) (Fin T)
    = fsub exact (Fin t)
        (fdiv exact (dy exact (Fin t) (Fin a) (Fin T)) (ddy exact (Fin t) (Fin a) (Fin T)))"
proof (cases "T = 0")
  case False
  then show ?thesis using assms
    by (simp add: newton_root_def Let_def dy_exact ddy_exact field_simps)
next
  case True
  note defs = newton_root_def Let_def ddy_def dy_def signed_inf_def fadd_def fsub_def
    fmul_def fdiv_def sub_r_def power2_d_def power3_d_def exact_def
  consider "t < 0" | "t = 0" | "0 < t" by linarith
  then show ?thesis
  proof cases
    case 1
    then show ?thesis using True
      by (cases "a = 0"; cases "a < 0") (simp_all add: defs)
  next
    case 2
    then show ?thesis using True by (simp add: defs)
  next
    case 3
    then show ?thesis using True by (simp add: defs)
  qed
qed

theorem newton_root_standard_witness:
  "ddy exact (Fin 0) (Fin 1) (Fin 1) \<noteq> Fin 0 \<and> newton_root exact (Fin 0) (Fin 1) (Fin 1) = Fin 0"
proof -
  have v: "dy exact (Fin 0) (Fin 1) (Fin 1) = Fin 0" "ddy exact (Fin 0) (Fin 1) (Fin 1) = Fin 1"
    by (simp_all add: dy_exact ddy_exact dy_spec_def ddy_spec_def)
  then have "ddy exact (Fin 0) (Fin 1) (Fin 1) \<noteq> Fin 0" by simp
  from this newton_root_standard [OF this] v show ?thesis by simp
qed

subsection \<open>The window\<close>

lemma t_max_cases:
  assumes fp: "sound_fp fp" and a: "0 < a"
  shows "fdiv fp (m_pi fp) (Fin a) = PInf
    \<or> (\<exists>m. fdiv fp (m_pi fp) (Fin a) = Fin m \<and> 0 \<le> m \<and> rnd fp m = Fin m)"
proof -
  note r = sound_fp_rnd [OF fp]
  obtain p where p: "m_pi fp = Fin p" "0 < p"
    using fp by (auto simp: sound_fp_def)
  have q: "Fin 0 \<le> rnd fp (p / a)"
    using a p by (intro sr_nonneg [OF r]) simp
  have e: "fdiv fp (m_pi fp) (Fin a) = rnd fp (p / a)"
    using a p by (simp add: fdiv_def)
  show ?thesis
  proof (cases "rnd fp (p / a)")
    case (Fin m)
    then show ?thesis using q e sr_idem [OF r Fin] by simp
  qed (use q e in simp_all)
qed

lemma clamp_t_window:
  assumes fp: "sound_fp fp"
    and tm: "t_max = PInf \<or> (\<exists>m. t_max = Fin m \<and> 0 \<le> m \<and> rnd fp m = Fin m)"
  shows "in_window t_max (clamp_t fp t t_max)"
proof -
  note r = sound_fp_rnd [OF fp]
  note e = sr_exact [OF r]
  obtain d where d: "lit fp 0.45 = Fin d" "3 / 8 \<le> d" "d \<le> 1 / 2"
    using sr_between [OF r e(12) e(4), of "0.45"] by (auto simp: lit_def)
  have reseed: "Fin 0 \<le> fmul fp (Fin d) t_max \<and> fmul fp (Fin d) t_max \<le> t_max"
    using tm
  proof
    assume "t_max = PInf"
    then show ?thesis using d by (simp add: fmul_def signed_inf_def)
  next
    assume "\<exists>m. t_max = Fin m \<and> 0 \<le> m \<and> rnd fp m = Fin m"
    then obtain m where m: "t_max = Fin m" "0 \<le> m" "rnd fp m = Fin m" by blast
    have "0 \<le> d * m" "d * m \<le> m"
      using d m by (simp_all add: mult_left_le_one_le)
    then have "Fin 0 \<le> rnd fp (d * m)" "rnd fp (d * m) \<le> rnd fp m"
      using sr_nonneg [OF r] sr_mono [OF r] by blast+
    then show ?thesis using m by (simp add: fmul_def)
  qed
  have pos: "Fin 0 \<le> t_max" "\<not> t_max < Fin 0" "t_max \<le> t_max"
    using tm by auto
  show ?thesis
  proof (cases "t > t_max")
    case True
    then show ?thesis using pos by (simp add: clamp_t_def in_window_def)
  next
    case False
    show ?thesis
    proof (cases "t < Fin 0")
      case True
      then show ?thesis using False reseed d by (simp add: clamp_t_def in_window_def)
    next
      case nonneg: False
      have "is_nan t \<or> (Fin 0 \<le> t \<and> t \<le> t_max)"
        using False nonneg tm by (cases t; cases t_max) auto
      then show ?thesis using False nonneg by (simp add: clamp_t_def in_window_def)
    qed
  qed
qed

lemma newton_loop_window:
  assumes fp: "sound_fp fp"
    and tm: "t_max = PInf \<or> (\<exists>m. t_max = Fin m \<and> 0 \<le> m \<and> rnd fp m = Fin m)"
  shows "i < 6 \<or> in_window t_max t \<Longrightarrow> in_window t_max (newton_loop fp i t a T t_max)"
proof (induction "6 - i" arbitrary: i t)
  case 0
  then have "\<not> i < 6" by simp
  then have "newton_loop fp i t a T t_max = t"
    by (subst newton_loop.simps) simp
  with 0 show ?case by simp
next
  case (Suc n)
  then have i: "i < 6" and n: "n = 6 - (i + 1)" by simp_all
  have "newton_loop fp i t a T t_max
      = newton_loop fp (i + 1) (clamp_t fp (newton_root fp t a T) t_max) a T t_max"
    using i by (subst newton_loop.simps) simp
  then show ?case
    using Suc.hyps(1) [OF n] clamp_t_window [OF fp tm] by simp
qed

lemma newtonsMethod_window:
  assumes fp: "sound_fp fp" and a: "0 < a"
  shows "in_window (fdiv fp (m_pi fp) (Fin a)) (newtonsMethod fp (Fin a) T)"
  unfolding newtonsMethod_def Let_def
  by (rule newton_loop_window [OF fp t_max_cases [OF fp a]]) simp

text \<open>
  Claim C1, as stated, puts the result in \<open>[0, \<pi>/a]\<close> for all \<open>a > 0\<close> and \<open>T > 0\<close>. On
  the IEEE machine, at \<open>a = 1\<close> and \<open>T = 2 ^ 600\<close> the square \<^verbatim>\<open>power2(a*T)\<close> overflows,
  \<open>ddy\<close> and \<open>dy\<close> are both zero in the first pass, \<open>- B / A\<close> is zero by zero, and the
  NaN passes both tests of the clamp and every later pass.
\<close>

lemma response_underflow:
  assumes t: "bounded_by 2 t"
  shows "ddy ieee t (Fin 1) (Fin (p2 600)) = Fin 0" "dy ieee t (Fin 1) (Fin (p2 600)) = Fin 0"
proof -
  define T where "T = Fin (p2 600)"
  have o: "binary64 (p2 1200) = PInf" by (rule binary64_overflow) (simp add: p2_le_iff)
  have D: "fadd ieee (power2_d ieee (fmul ieee (Fin 1) T)) (Fin 1) = PInf"
    by (simp add: T_def ieee_ops binary64_p2 o)
  have b1: "bounded_by 0 (Fin 1)" by (simp add: bounded_by_def)
  have bT: "bounded_by 600 T" by (simp add: T_def bounded_by_def)
  have at: "bounded_by 2 (fmul ieee (Fin 1) t)"
    using bounded_by_mul [OF b1 t] by simp
  note c = bounded_by_cos [OF at]
  note s = bounded_by_sin [OF at]
  have p3: "power3_d ieee (Fin 1) = Fin 1" "power2_d ieee (Fin 1) = Fin 1"
    by (simp_all add: ieee_ops)
  have x1: "bounded_by 600 (fmul ieee (Fin 1) T)"
    using bounded_by_mul [OF b1 bT] by simp
  have x2: "bounded_by 600 (fmul ieee (fmul ieee (Fin 1) T) (cos_d ieee (fmul ieee (Fin 1) t)))"
    using bounded_by_mul [OF x1 c] by simp
  have x3: "bounded_by 600 (fmul ieee (Fin 1) (sin_d ieee (fmul ieee (Fin 1) t)))"
    using bounded_by_mul [OF b1 s] by (simp add: bounded_by_mono)
  note x4 = bounded_by_sub [OF x2 x3]
  have w: "bounded_by 0 (fdiv ieee (- t) T)"
    unfolding T_def
    using bounded_by_div [OF bounded_by_neg [OF t], of 600] by (simp add: bounded_by_mono)
  note e = bounded_by_exp [OF w]
  have x5: "bounded_by 2 (fmul ieee (Fin 1) (exp_d ieee (fdiv ieee (- t) T)))"
    using bounded_by_mul [OF b1 e] by simp
  have x6: "bounded_by 601 (fdiv ieee (fmul ieee (Fin 1) (exp_d ieee (fdiv ieee (- t) T))) T)"
    unfolding T_def
    using bounded_by_div [OF x5, of 600] by (simp add: bounded_by_mono T_def)
  have n2: "bounded_by 602
     (fadd ieee
         (fsub ieee
           (fmul ieee (fmul ieee (Fin 1) T) (cos_d ieee (fmul ieee (Fin 1) t)))
           (fmul ieee (Fin 1) (sin_d ieee (fmul ieee (Fin 1) t))))
         (fdiv ieee (fmul ieee (Fin 1) (exp_d ieee (fdiv ieee (- t) T))) T))"
    using bounded_by_add [OF _ x6, of "fsub ieee
           (fmul ieee (fmul ieee (Fin 1) T) (cos_d ieee (fmul ieee (Fin 1) t)))
           (fmul ieee (Fin 1) (sin_d ieee (fmul ieee (Fin 1) t)))"] x4
    by simp
  show "ddy ieee t (Fin 1) (Fin (p2 600)) = Fin 0"
    unfolding ddy_def T_def [symmetric] p3 D
    by (rule div_PInf [OF bounded_by_finite [OF n2]])
  have y1: "bounded_by 600 (fmul ieee (fmul ieee (Fin 1) T) (sin_d ieee (fmul ieee (Fin 1) t)))"
    using bounded_by_mul [OF x1 s] by simp
  have y2: "bounded_by 600 (fmul ieee (Fin 1) (cos_d ieee (fmul ieee (Fin 1) t)))"
    using bounded_by_mul [OF b1 c] by (simp add: bounded_by_mono)
  note y3 = bounded_by_add [OF y1 y2]
  have y4: "bounded_by 601 (fmul ieee (Fin 1) (exp_d ieee (fdiv ieee (- t) T)))"
    using x5 by (simp add: bounded_by_mono)
  have n1: "bounded_by 602
       (fsub ieee
         (fadd ieee
           (fmul ieee (fmul ieee (Fin 1) T) (sin_d ieee (fmul ieee (Fin 1) t)))
           (fmul ieee (Fin 1) (cos_d ieee (fmul ieee (Fin 1) t))))
         (fmul ieee (Fin 1) (exp_d ieee (fdiv ieee (- t) T))))"
    using bounded_by_sub [OF _ y4, of "fadd ieee
           (fmul ieee (fmul ieee (Fin 1) T) (sin_d ieee (fmul ieee (Fin 1) t)))
           (fmul ieee (Fin 1) (cos_d ieee (fmul ieee (Fin 1) t)))"] y3
    by simp
  show "dy ieee t (Fin 1) (Fin (p2 600)) = Fin 0"
    unfolding dy_def T_def [symmetric] p3 D
    by (rule div_PInf [OF bounded_by_finite [OF n1]])
qed

theorem newtonsMethod_nan_counterexample:
  "newtonsMethod ieee (Fin 1) (Fin (p2 600)) = NaN"
proof -
  have "\<bar>884279719003555 / 2 ^ 48\<bar> \<le> p2 2" by (simp add: p2_def)
  then have "bounded_by 2 (fdiv ieee (m_pi ieee) (Fin 1))"
    using bounded_by_binary64 [of "884279719003555 / 2 ^ 48" 2]
    by (simp add: ieee_def fdiv_def)
  moreover have "bounded_by 0 (lit ieee 0.75)"
    using bounded_by_binary64 [of "0.75" 0] by (simp add: lit_def)
  ultimately have t0: "bounded_by 2 (fmul ieee (fdiv ieee (m_pi ieee) (Fin 1)) (lit ieee 0.75))"
    using bounded_by_mul [of 2 _ 0] by simp
  then obtain t where t: "fmul ieee (fdiv ieee (m_pi ieee) (Fin 1)) (lit ieee 0.75) = Fin t"
    by (auto simp: bounded_by_def)
  have "newton_root ieee (Fin t) (Fin 1) (Fin (p2 600)) = NaN"
    using response_underflow [OF t0] unfolding t
    by (simp add: newton_root_def Let_def ieee_ops)
  then show ?thesis
    unfolding newtonsMethod_def Let_def t
    by (subst newton_loop.simps) (simp add: newton_root_NaN clamp_t_NaN newton_loop_NaN)
qed

text \<open>
  Claim C1, amended. On a sound machine, for all \<open>a > 0\<close> and \<open>T > 0\<close>, \<open>newtonsMethod\<close>
  returns either NaN or a value in the closed interval from 0 to \<open>t_max\<close>, where
  \<open>t_max\<close> is \<^verbatim>\<open>M_PI/a\<close> as the program computes it.
\<close>

theorem newtonsMethod_range:
  assumes "sound_fp fp" "0 < a" "0 < T"
  shows "is_nan (newtonsMethod fp (Fin a) (Fin T))
    \<or> (Fin 0 \<le> newtonsMethod fp (Fin a) (Fin T)
        \<and> newtonsMethod fp (Fin a) (Fin T) \<le> fdiv fp (m_pi fp) (Fin a))"
  using newtonsMethod_window [OF assms(1,2), of "Fin T"] by (simp add: in_window_def)

theorem newtonsMethod_range_witness:
  "is_nan (newtonsMethod ieee (Fin 1) (Fin 1))
    \<or> (Fin 0 \<le> newtonsMethod ieee (Fin 1) (Fin 1)
        \<and> newtonsMethod ieee (Fin 1) (Fin 1) \<le> fdiv ieee (m_pi ieee) (Fin 1))"
  using newtonsMethod_range [OF sound_ieee, of 1 1] by simp

section \<open>The load factor\<close>

lemma literals:
  assumes "sound_fp fp"
  obtains d19 d22 d27 where
    "lit fp 1.9 = Fin d19" "lit fp 2.2 = Fin d22" "lit fp 2.7 = Fin d27"
    "lit fp 3.5 = Fin (7 / 2)"
    "15 / 8 \<le> d19" "d19 \<le> 2" "17 / 8 \<le> d22" "d22 \<le> 9 / 4" "21 / 8 \<le> d27" "d27 \<le> 11 / 4"
proof -
  note r = sound_fp_rnd [OF assms]
  note e = sr_exact [OF r]
  obtain d19 where 1: "rnd fp 1.9 = Fin d19" "15 / 8 \<le> d19" "d19 \<le> 2"
    using sr_between [OF r e(5) e(6), of "1.9"] by auto
  obtain d22 where 2: "rnd fp 2.2 = Fin d22" "17 / 8 \<le> d22" "d22 \<le> 9 / 4"
    using sr_between [OF r e(7) e(8), of "2.2"] by auto
  obtain d27 where 3: "rnd fp 2.7 = Fin d27" "21 / 8 \<le> d27" "d27 \<le> 11 / 4"
    using sr_between [OF r e(9) e(10), of "2.7"] by auto
  have 4: "rnd fp 3.5 = Fin (7 / 2)" using e(11) by simp
  show thesis
    using that [of d19 d22 d27] 1 2 3 4 by (simp add: lit_def)
qed

lemma unit_round:
  assumes "sound_rounding r" "0 \<le> x" "x \<le> 1"
  obtains v where "r x = Fin v" "0 \<le> v" "v \<le> 1"
  using sr_between [OF assms(1) sr_exact(1) [OF assms(1)] sr_exact(2) [OF assms(1)] assms(2,3)]
  by auto

lemma up_ramp:
  assumes fp: "sound_fp fp" and f: "d19 \<le> f" "f \<le> d22" and d: "15 / 8 \<le> d19" "d22 \<le> 9 / 4"
  shows "\<exists>x c v.
    fsub fp (Fin f) (Fin d19) = Fin x \<and> 0 \<le> x \<and> x \<le> 1
    \<and> fsub fp (Fin d22) (Fin d19) = Fin c \<and> 0 \<le> c \<and> c \<le> 1
    \<and> fmul fp (Fin x) (Fin c) = Fin v \<and> 0 \<le> v \<and> v \<le> 1"
proof -
  note r = sound_fp_rnd [OF fp]
  obtain x where x: "rnd fp (f - d19) = Fin x" "0 \<le> x" "x \<le> 1"
    using unit_round [OF r, of "f - d19"] f d by auto
  obtain c where c: "rnd fp (d22 - d19) = Fin c" "0 \<le> c" "c \<le> 1"
    using unit_round [OF r, of "d22 - d19"] f d by auto
  have "0 \<le> x * c" "x * c \<le> 1"
    using x c by (simp_all add: mult_le_one)
  then obtain v where v: "rnd fp (x * c) = Fin v" "0 \<le> v" "v \<le> 1"
    using unit_round [OF r, of "x * c"] by auto
  show ?thesis
    using x c v by (simp add: fsub_def fmul_def sub_r_def)
qed

lemma down_ramp:
  assumes fp: "sound_fp fp" and f: "d27 \<le> f" "f \<le> 7 / 2" and d: "21 / 8 \<le> d27"
  shows "\<exists>x c v.
    fsub fp (Fin f) (Fin (7 / 2)) = Fin (- x) \<and> 0 \<le> x \<and> x \<le> 1
    \<and> fsub fp (Fin (7 / 2)) (Fin d27) = Fin c \<and> 0 \<le> c \<and> c \<le> 1
    \<and> fmul fp (Fin x) (Fin c) = Fin v \<and> 0 \<le> v \<and> v \<le> 1"
proof -
  note r = sound_fp_rnd [OF fp]
  obtain x where x: "rnd fp (7 / 2 - f) = Fin x" "0 \<le> x" "x \<le> 1"
    using unit_round [OF r, of "7 / 2 - f"] f d by auto
  have "rnd fp (f - 7 / 2) = - rnd fp (7 / 2 - f)"
    using sr_neg [OF r, of "7 / 2 - f"] by simp
  then have x': "rnd fp (f - 7 / 2) = Fin (- x)" using x by simp
  obtain c where c: "rnd fp (7 / 2 - d27) = Fin c" "0 \<le> c" "c \<le> 1"
    using unit_round [OF r, of "7 / 2 - d27"] f d by auto
  have "0 \<le> x * c" "x * c \<le> 1"
    using x c by (simp_all add: mult_le_one)
  then obtain v where v: "rnd fp (x * c) = Fin v" "0 \<le> v" "v \<le> 1"
    using unit_round [OF r, of "x * c"] by auto
  show ?thesis
    using x x' c v by (simp add: fsub_def fmul_def sub_r_def)
qed

lemma joggerLoadFactor_form:
  assumes "lit fp 1.9 = Fin d19" "lit fp 2.2 = Fin d22" "lit fp 2.7 = Fin d27"
    "lit fp 3.5 = Fin (7 / 2)"
  shows "joggerLoadFactor fp (Fin f) =
     (if f \<le> d19 \<or> 7 / 2 \<le> f then Fin 0
      else if f < d22 then fmul fp (fsub fp (Fin f) (Fin d19)) (fsub fp (Fin d22) (Fin d19))
      else if f \<le> d27 then Fin 1
      else fmul fp (- fsub fp (Fin f) (Fin (7 / 2))) (fsub fp (Fin (7 / 2)) (Fin d27)))"
  unfolding joggerLoadFactor_def assms by simp

lemma joggerLoadFactor_range:
  assumes fp: "sound_fp fp"
  shows "\<exists>v. joggerLoadFactor fp (Fin f) = Fin v \<and> 0 \<le> v \<and> v \<le> 1"
proof -
  obtain d19 d22 d27 where l: "lit fp 1.9 = Fin d19" "lit fp 2.2 = Fin d22"
      "lit fp 2.7 = Fin d27" "lit fp 3.5 = Fin (7 / 2)"
    and b: "15 / 8 \<le> d19" "d19 \<le> 2" "17 / 8 \<le> d22" "d22 \<le> 9 / 4" "21 / 8 \<le> d27" "d27 \<le> 11 / 4"
    by (rule literals [OF fp])
  note form = joggerLoadFactor_form [OF l]
  consider "f \<le> d19 \<or> 7 / 2 \<le> f" | "d19 < f" "f < d22" | "d22 \<le> f" "f \<le> d27"
    | "d27 < f" "f < 7 / 2"
    using b by linarith
  then show ?thesis
  proof cases
    case 1
    then show ?thesis by (auto simp: form)
  next
    case 2
    obtain x c v where "fsub fp (Fin f) (Fin d19) = Fin x"
        "fsub fp (Fin d22) (Fin d19) = Fin c" "fmul fp (Fin x) (Fin c) = Fin v" "0 \<le> v" "v \<le> 1"
      using up_ramp [OF fp, of d19 f d22] 2 b by force
    then show ?thesis using 2 b by (auto simp: form)
  next
    case 3
    then show ?thesis using b by (auto simp: form)
  next
    case 4
    obtain x c v where "fsub fp (Fin f) (Fin (7 / 2)) = Fin (- x)"
        "fsub fp (Fin (7 / 2)) (Fin d27) = Fin c" "fmul fp (Fin x) (Fin c) = Fin v"
        "0 \<le> v" "v \<le> 1"
      using down_ramp [OF fp, of d27 f] 4 b by force
    then show ?thesis using 4 b by (auto simp: form)
  qed
qed


lemma joggerLoadFactor_mono_up:
  assumes fp: "sound_fp fp" and l27: "lit fp 2.7 = Fin d27" and f: "f1 \<le> f2" "f2 \<le> d27"
  shows "joggerLoadFactor fp (Fin f1) \<le> joggerLoadFactor fp (Fin f2)"
proof -
  note r = sound_fp_rnd [OF fp]
  obtain d19 d22 d27' where l: "lit fp 1.9 = Fin d19" "lit fp 2.2 = Fin d22"
      "lit fp 2.7 = Fin d27'" "lit fp 3.5 = Fin (7 / 2)"
    and b: "15 / 8 \<le> d19" "d19 \<le> 2" "17 / 8 \<le> d22" "d22 \<le> 9 / 4" "21 / 8 \<le> d27'" "d27' \<le> 11 / 4"
    by (rule literals [OF fp])
  have d27: "d27' = d27" using l(3) l27 by simp
  note form = joggerLoadFactor_form [OF l]
  obtain v1 where v1: "joggerLoadFactor fp (Fin f1) = Fin v1" "0 \<le> v1" "v1 \<le> 1"
    using joggerLoadFactor_range [OF fp, of f1] by blast
  obtain v2 where v2: "joggerLoadFactor fp (Fin f2) = Fin v2" "0 \<le> v2" "v2 \<le> 1"
    using joggerLoadFactor_range [OF fp, of f2] by blast
  consider "f1 \<le> d19" | "d22 \<le> f2" | "d19 < f1" "f2 < d22"
    by linarith
  then show ?thesis
  proof cases
    case 1
    then have "joggerLoadFactor fp (Fin f1) = Fin 0" by (simp add: form)
    then show ?thesis using v2 by simp
  next
    case 2
    then have "joggerLoadFactor fp (Fin f2) = Fin 1" using f b d27 by (simp add: form)
    then show ?thesis using v1 by simp
  next
    case 3
    have e1: "joggerLoadFactor fp (Fin f1)
        = fmul fp (fsub fp (Fin f1) (Fin d19)) (fsub fp (Fin d22) (Fin d19))"
      using 3 f b by (simp add: form)
    have e2: "joggerLoadFactor fp (Fin f2)
        = fmul fp (fsub fp (Fin f2) (Fin d19)) (fsub fp (Fin d22) (Fin d19))"
      using 3 f b by (simp add: form)
    obtain x1 c where x1: "fsub fp (Fin f1) (Fin d19) = Fin x1"
        and c: "fsub fp (Fin d22) (Fin d19) = Fin c" "0 \<le> c"
      using up_ramp [OF fp, of d19 f1 d22] 3 f b by force
    obtain x2 where x2: "fsub fp (Fin f2) (Fin d19) = Fin x2"
      using up_ramp [OF fp, of d19 f2 d22] 3 f b by force
    have "rnd fp (f1 - d19) \<le> rnd fp (f2 - d19)"
      using f by (intro sr_mono [OF r]) simp
    then have "x1 \<le> x2"
      using x1 x2 by (simp add: fsub_def sub_r_def)
    then have "x1 * c \<le> x2 * c" using c by (simp add: mult_right_mono)
    then have "rnd fp (x1 * c) \<le> rnd fp (x2 * c)" by (rule sr_mono [OF r])
    then show ?thesis
      unfolding e1 e2 x1 x2 c by (simp add: fmul_def)
  qed
qed

lemma joggerLoadFactor_mono_down:
  assumes fp: "sound_fp fp" and l22: "lit fp 2.2 = Fin d22" and f: "d22 \<le> f1" "f1 \<le> f2"
  shows "joggerLoadFactor fp (Fin f2) \<le> joggerLoadFactor fp (Fin f1)"
proof -
  note r = sound_fp_rnd [OF fp]
  obtain d19 d22' d27 where l: "lit fp 1.9 = Fin d19" "lit fp 2.2 = Fin d22'"
      "lit fp 2.7 = Fin d27" "lit fp 3.5 = Fin (7 / 2)"
    and b: "15 / 8 \<le> d19" "d19 \<le> 2" "17 / 8 \<le> d22'" "d22' \<le> 9 / 4" "21 / 8 \<le> d27" "d27 \<le> 11 / 4"
    by (rule literals [OF fp])
  have d22: "d22' = d22" using l(2) l22 by simp
  note form = joggerLoadFactor_form [OF l]
  obtain v1 where v1: "joggerLoadFactor fp (Fin f1) = Fin v1" "0 \<le> v1" "v1 \<le> 1"
    using joggerLoadFactor_range [OF fp, of f1] by blast
  obtain v2 where v2: "joggerLoadFactor fp (Fin f2) = Fin v2" "0 \<le> v2" "v2 \<le> 1"
    using joggerLoadFactor_range [OF fp, of f2] by blast
  consider "7 / 2 \<le> f2" | "f1 \<le> d27" | "d27 < f1" "f2 < 7 / 2"
    by linarith
  then show ?thesis
  proof cases
    case 1
    then have "joggerLoadFactor fp (Fin f2) = Fin 0" by (simp add: form)
    then show ?thesis using v1 by simp
  next
    case 2
    then have "joggerLoadFactor fp (Fin f1) = Fin 1" using f b d22 by (simp add: form)
    then show ?thesis using v2 by simp
  next
    case 3
    have e1: "joggerLoadFactor fp (Fin f1)
        = fmul fp (- fsub fp (Fin f1) (Fin (7 / 2))) (fsub fp (Fin (7 / 2)) (Fin d27))"
      using 3 f b d22 by (simp add: form)
    have e2: "joggerLoadFactor fp (Fin f2)
        = fmul fp (- fsub fp (Fin f2) (Fin (7 / 2))) (fsub fp (Fin (7 / 2)) (Fin d27))"
      using 3 f b d22 by (simp add: form)
    obtain x1 c where x1: "fsub fp (Fin f1) (Fin (7 / 2)) = Fin (- x1)"
        and c: "fsub fp (Fin (7 / 2)) (Fin d27) = Fin c" "0 \<le> c"
      using down_ramp [OF fp, of d27 f1] 3 f b by force
    obtain x2 where x2: "fsub fp (Fin f2) (Fin (7 / 2)) = Fin (- x2)"
      using down_ramp [OF fp, of d27 f2] 3 f b by force
    have "rnd fp (f1 - 7 / 2) \<le> rnd fp (f2 - 7 / 2)"
      using f by (intro sr_mono [OF r]) simp
    then have "x2 \<le> x1"
      using x1 x2 by (simp add: fsub_def sub_r_def)
    then have "x2 * c \<le> x1 * c" using c by (simp add: mult_right_mono)
    then have "rnd fp (x2 * c) \<le> rnd fp (x1 * c)" by (rule sr_mono [OF r])
    then show ?thesis
      unfolding e1 e2 x1 x2 c by (simp add: fmul_def)
  qed
qed

text \<open>
  Claim C4, as stated, reads the thresholds as the decimal numbers. The program compares
  with the doubles nearest to them: the double nearest to 2.7 is above 2.7, and there
  the IEEE machine returns 1, not \<open>- (f - 3.5) (3.5 - 2.7)\<close>.
\<close>

theorem load_factor_literal_counterexample:
  "27 / 10 < (3039929748475085 / 2 ^ 50 :: real) \<and> (3039929748475085 / 2 ^ 50 :: real) < 35 / 10
    \<and> joggerLoadFactor ieee (Fin (3039929748475085 / 2 ^ 50)) = Fin 1
    \<and> - (3039929748475085 / 2 ^ 50 - 35 / 10) * (35 / 10 - 27 / 10) \<noteq> (1::real)"
proof -
  obtain d19 d22 d27 where l: "lit ieee 1.9 = Fin d19" "lit ieee 2.2 = Fin d22"
      "lit ieee 2.7 = Fin d27" "lit ieee 3.5 = Fin (7 / 2)"
    and b: "15 / 8 \<le> d19" "d19 \<le> 2" "17 / 8 \<le> d22" "d22 \<le> 9 / 4" "21 / 8 \<le> d27" "d27 \<le> 11 / 4"
    by (rule literals [OF sound_ieee])
  have d27: "d27 = 3039929748475085 / 2 ^ 50"
    using l(3) binary64_27 by (simp add: lit_def)
  have "joggerLoadFactor ieee (Fin (3039929748475085 / 2 ^ 50)) = Fin 1"
    unfolding joggerLoadFactor_form [OF l] using b unfolding d27 by simp
  then show ?thesis by simp
qed

text \<open>
  Claim C4, amended. On a sound machine, with \<open>d19\<close>, \<open>d22\<close>, \<open>d27\<close> and \<open>d35\<close> the
  doubles of the literals 1.9, 2.2, 2.7 and 3.5, the load factor is 0 when \<open>f \<le> d19\<close>
  or \<open>f \<ge> d35\<close>, the rounded product \<^verbatim>\<open>(f-1.9)*(2.2-1.9)\<close> when \<open>d19 < f < d22\<close>, 1 when
  \<open>d22 \<le> f \<le> d27\<close>, and the rounded product \<^verbatim>\<open>-(f-3.5)*(3.5-2.7)\<close> when
  \<open>d27 < f < d35\<close>; in particular it is 0 at the doubles of 1.9 and 3.5.
\<close>

theorem joggerLoadFactor_piecewise:
  assumes fp: "sound_fp fp"
  shows "\<exists>d19 d22 d27 d35.
      lit fp 1.9 = Fin d19 \<and> lit fp 2.2 = Fin d22 \<and> lit fp 2.7 = Fin d27 \<and> lit fp 3.5 = Fin d35
    \<and> (\<forall>f. (f \<le> d19 \<or> d35 \<le> f \<longrightarrow> joggerLoadFactor fp (Fin f) = Fin 0)
        \<and> (d19 < f \<and> f < d22 \<longrightarrow> joggerLoadFactor fp (Fin f)
              = fmul fp (fsub fp (Fin f) (Fin d19)) (fsub fp (Fin d22) (Fin d19)))
        \<and> (d22 \<le> f \<and> f \<le> d27 \<longrightarrow> joggerLoadFactor fp (Fin f) = Fin 1)
        \<and> (d27 < f \<and> f < d35 \<longrightarrow> joggerLoadFactor fp (Fin f)
              = fmul fp (- fsub fp (Fin f) (Fin d35)) (fsub fp (Fin d35) (Fin d27))))
    \<and> joggerLoadFactor fp (lit fp 1.9) = Fin 0
    \<and> joggerLoadFactor fp (lit fp 3.5) = Fin 0"
proof -
  obtain d19 d22 d27 where l: "lit fp 1.9 = Fin d19" "lit fp 2.2 = Fin d22"
      "lit fp 2.7 = Fin d27" "lit fp 3.5 = Fin (7 / 2)"
    and b: "15 / 8 \<le> d19" "d19 \<le> 2" "17 / 8 \<le> d22" "d22 \<le> 9 / 4" "21 / 8 \<le> d27" "d27 \<le> 11 / 4"
    by (rule literals [OF fp])
  note form = joggerLoadFactor_form [OF l]
  have "\<forall>f. (f \<le> d19 \<or> 7 / 2 \<le> f \<longrightarrow> joggerLoadFactor fp (Fin f) = Fin 0)
        \<and> (d19 < f \<and> f < d22 \<longrightarrow> joggerLoadFactor fp (Fin f)
              = fmul fp (fsub fp (Fin f) (Fin d19)) (fsub fp (Fin d22) (Fin d19)))
        \<and> (d22 \<le> f \<and> f \<le> d27 \<longrightarrow> joggerLoadFactor fp (Fin f) = Fin 1)
        \<and> (d27 < f \<and> f < 7 / 2 \<longrightarrow> joggerLoadFactor fp (Fin f)
              = fmul fp (- fsub fp (Fin f) (Fin (7 / 2))) (fsub fp (Fin (7 / 2)) (Fin d27)))"
    using b by (auto simp: form)
  moreover have "joggerLoadFactor fp (Fin d19) = Fin 0" "joggerLoadFactor fp (Fin (7 / 2)) = Fin 0"
    by (simp_all add: form)
  ultimately show ?thesis
    using l by (intro exI [of _ d19] exI [of _ d22] exI [of _ d27] exI [of _ "7 / 2"]) simp
qed

theorem joggerLoadFactor_piecewise_witness:
  "joggerLoadFactor ieee (lit ieee 1.9) = Fin 0 \<and> joggerLoadFactor ieee (lit ieee 3.5) = Fin 0"
  using joggerLoadFactor_piecewise [OF sound_ieee] by blast

text \<open>
  Claim C8. On a sound machine, for every real \<open>f\<close> the load factor is a finite number in
  the closed interval \<open>[0, 1]\<close>.
\<close>

theorem joggerLoadFactor_unit_interval:
  assumes "sound_fp fp"
  shows "\<exists>r. joggerLoadFactor fp (Fin f) = Fin r \<and> 0 \<le> r \<and> r \<le> 1"
  using assms by (rule joggerLoadFactor_range)

theorem joggerLoadFactor_unit_interval_witness:
  "(\<exists>r. joggerLoadFactor ieee (Fin 2) = Fin r \<and> 0 \<le> r \<and> r \<le> 1)
    \<and> (\<exists>r. joggerLoadFactor exact (Fin 2) = Fin r \<and> 0 \<le> r \<and> r \<le> 1)"
  using joggerLoadFactor_unit_interval [OF sound_ieee, of 2]
    joggerLoadFactor_unit_interval [OF sound_exact, of 2]
  by simp

text \<open>
  Claim C10. On a sound machine, for doubles \<open>f1\<close> and \<open>f2\<close>, the load factor does not
  decrease on the half-line \<open>f \<le> 2.7\<close> and does not increase on the half-line
  \<open>f \<ge> 2.2\<close>.
\<close>

theorem joggerLoadFactor_monotone:
  assumes fp: "sound_fp fp" and f1: "rnd fp f1 = Fin f1" and f2: "rnd fp f2 = Fin f2"
  shows "(f1 \<le> f2 \<and> f2 \<le> 2.7 \<longrightarrow> joggerLoadFactor fp (Fin f1) \<le> joggerLoadFactor fp (Fin f2))
    \<and> (2.2 \<le> f1 \<and> f1 \<le> f2 \<longrightarrow> joggerLoadFactor fp (Fin f2) \<le> joggerLoadFactor fp (Fin f1))"
proof -
  note r = sound_fp_rnd [OF fp]
  obtain d19 d22 d27 where l: "lit fp 1.9 = Fin d19" "lit fp 2.2 = Fin d22"
      "lit fp 2.7 = Fin d27" "lit fp 3.5 = Fin (7 / 2)"
    by (rule literals [OF fp])
  have up: "f2 \<le> d27" if "f2 \<le> 2.7"
    using sr_mono [OF r that] f2 l(3) by (simp add: lit_def)
  have down: "d22 \<le> f1" if "2.2 \<le> f1"
    using sr_mono [OF r that] f1 l(2) by (simp add: lit_def)
  show ?thesis
    using joggerLoadFactor_mono_up [OF fp l(3), of f1 f2]
      joggerLoadFactor_mono_down [OF fp l(2), of f1 f2] up down
    by blast
qed

theorem joggerLoadFactor_monotone_witness:
  "joggerLoadFactor ieee (Fin 2) \<le> joggerLoadFactor ieee (Fin (5 / 2))
    \<and> joggerLoadFactor ieee (Fin 3) \<le> joggerLoadFactor ieee (Fin (5 / 2))"
proof -
  have r: "rnd ieee 2 = Fin 2" "rnd ieee (5 / 2) = Fin (5 / 2)" "rnd ieee 3 = Fin 3"
    using sr_eighth [OF sound_binary64, of 16] sr_eighth [OF sound_binary64, of 20]
      sr_eighth [OF sound_binary64, of 24]
    by simp_all
  show ?thesis
    using joggerLoadFactor_monotone [OF sound_ieee r(1) r(2)]
      joggerLoadFactor_monotone [OF sound_ieee r(2) r(3)]
    by simp
qed

section \<open>The acceleration the program prints\<close>

lemma load_factor_11_4: "\<exists>l. joggerLoadFactor ieee (Fin (11 / 4)) = Fin l \<and> 1 / 2 \<le> l \<and> l \<le> 1"
proof -
  note r = sound_binary64
  obtain d19 d22 d27 where l: "lit ieee 1.9 = Fin d19" "lit ieee 2.2 = Fin d22"
      "lit ieee 2.7 = Fin d27" "lit ieee 3.5 = Fin (7 / 2)"
    and b: "15 / 8 \<le> d19" "d19 \<le> 2" "17 / 8 \<le> d22" "d22 \<le> 9 / 4" "21 / 8 \<le> d27" "d27 \<le> 11 / 4"
    by (rule literals [OF sound_ieee])
  show ?thesis
  proof (cases "11 / 4 \<le> d27")
    case True
    then show ?thesis unfolding joggerLoadFactor_form [OF l] using b by simp
  next
    case False
    have e: "binary64 (3 / 4) = Fin (3 / 4)" "binary64 (7 / 8) = Fin (7 / 8)"
        "binary64 (1 / 2) = Fin (1 / 2)" "binary64 1 = Fin 1"
      using sr_eighth [OF r, of 6] sr_eighth [OF r, of 7] sr_eighth [OF r, of 4] by simp_all
    have m: "binary64 (- (3 / 4)) = Fin (- (3 / 4))"
      using sr_neg [OF r, of "3 / 4"] e(1) by simp
    obtain c where c: "binary64 (7 / 2 - d27) = Fin c" "3 / 4 \<le> c" "c \<le> 7 / 8"
      using sr_between [OF r e(1) e(2), of "7 / 2 - d27"] b by auto
    have "1 / 2 \<le> 3 / 4 * c" "3 / 4 * c \<le> 1" using c by simp_all
    then obtain v where v: "binary64 (3 / 4 * c) = Fin v" "1 / 2 \<le> v" "v \<le> 1"
      using sr_between [OF r e(3) e(4), of "3 / 4 * c"] by auto
    have v': "binary64 (3 * c / 4) = Fin v" using v(1) by simp
    have "joggerLoadFactor ieee (Fin (11 / 4)) = Fin v"
      unfolding joggerLoadFactor_form [OF l] using b False
      by (simp add: ieee_ops m c v')
    then show ?thesis using v by blast
  qed
qed

lemma acceleration_spec_positive:
  assumes "p2 (- 100) \<le> v" "v \<le> p2 100"
  shows "\<exists>q. acceleration_spec ieee (Fin v) (Fin (11 / 4)) (Fin (p2 127)) (Fin (1 / 128)) = Fin q
    \<and> 0 < q"
proof -
  note r = sound_binary64
  have v0: "0 < v" using assms(1) p2_pos [of "- 100"] by linarith
  have "p2 (- 90) = p2 (- 100) * 1024" "p2 111 = p2 100 * 2048"
    by (simp_all add: p2_def powr_minus flip: powr_numeral powr_add)
  then have "p2 (- 90) \<le> v * 1250" "v * 1250 \<le> p2 111"
    using assms v0 by simp_all
  then obtain w1 where w1: "binary64 (v * 1250) = Fin w1" "p2 (- 90) \<le> w1" "w1 \<le> p2 111"
    using sr_between [OF r binary64_p2 binary64_p2, of "- 90" 111 "v * 1250"] by auto
  obtain l where l: "joggerLoadFactor ieee (Fin (11 / 4)) = Fin l" "1 / 2 \<le> l" "l \<le> 1"
    using load_factor_11_4 by blast
  have w10: "0 < w1" using w1(2) p2_pos [of "- 90"] by linarith
  have h: "p2 (- 91) = p2 (- 90) * (1 / 2)"
    using p2_add [of "- 90" "- 1"] by (simp add: p2_def powr_minus)
  have "p2 (- 90) * (1 / 2) \<le> w1 * l"
    using w1(2) l(2) w10 by (intro mult_mono) simp_all
  moreover have "w1 * l \<le> p2 111 * 1"
    using w1(3) l(2,3) w10 by (intro mult_mono) simp_all
  ultimately have "p2 (- 91) \<le> w1 * l" "w1 * l \<le> p2 111" using h by simp_all
  then obtain w2 where w2: "binary64 (w1 * l) = Fin w2" "p2 (- 91) \<le> w2" "w2 \<le> p2 111"
    using sr_between [OF r binary64_p2 binary64_p2, of "- 91" 111 "w1 * l"] by auto
  have d1: "2 * p2 127 = p2 128" using p2_add [of 1 127] by (simp add: p2_def)
  have d2: "p2 128 / 128 = p2 121"
    using p2_add [of 121 7] by (simp add: p2_def)
  have den: "fmul ieee (fmul ieee (Fin 2) (Fin (p2 127))) (Fin (1 / 128)) = Fin (p2 121)"
    by (simp add: ieee_ops d1 d2 binary64_p2)
  have "p2 (- 91) / p2 121 \<le> w2 / p2 121" "w2 / p2 121 \<le> p2 111 / p2 121"
    using w2 by (simp_all add: divide_right_mono del: p2_divide)
  then have "p2 (- 212) \<le> w2 / p2 121" "w2 / p2 121 \<le> p2 (- 10)" by simp_all
  then obtain q where q: "binary64 (w2 / p2 121) = Fin q" "p2 (- 212) \<le> q"
    using sr_between [OF r binary64_p2 binary64_p2, of "- 212" "- 10" "w2 / p2 121"] by auto
  have "0 < q" using q(2) p2_pos [of "- 212"] by linarith
  moreover have "acceleration_spec ieee (Fin v) (Fin (11 / 4)) (Fin (p2 127)) (Fin (1 / 128)) = Fin q"
    unfolding acceleration_spec_def den l
    by (simp add: ieee_ops w1 w2 q)
  ultimately show ?thesis by blast
qed



end
